theory Spec2Isabelle
  imports Complex_Main "HOL-Library.Multiset"
begin

section \<open>Data model of \<open>src/snake.ts\<close>\<close>

text \<open>
  A cell of the board is a JavaScript number: \<open>-1\<close> for the target, \<open>0\<close> for empty, a
  positive integer for a snake segment that expires in that many turns. The numbers the
  program stores are integers, so a number is an \<open>int\<close>. Reading an array beyond its end
  (or at a hole left by a write beyond its end) yields \<open>undefined\<close>, which is the second
  constructor.

  The board is a list of rows, each row a list of its own: the rows of a board are taken
  to be distinct arrays, as \<open>init\<close> builds them, so a write to one row changes no other.
  The self-call of \<open>placeRandomly\<close> is an ordinary call (the script is not strict, so
  no engine reuses the frame): the call stack allows a number of nested self-calls that
  depends on the engine, and the call after them throws \<open>RangeError\<close>. That number is the
  parameter \<open>limit\<close> of the functions below.
\<close>

datatype CellValue = Num int | Undefined

type_synonym GameBoard = "CellValue list list"

datatype Direction = North | South | East | West

text \<open>The field \<open>length\<close> of the source is \<open>glength\<close> here (\<open>length\<close> is the list function).\<close>

record Game =
  board :: GameBoard
  glength :: int

text \<open>
  The two \<open>Error\<close>s that \<open>advance\<close> throws, told apart by their message, the
  \<open>TypeError\<close> of reading a property of \<open>undefined\<close>, and the \<open>RangeError\<close> of a call
  that the call stack has no room for.
\<close>

datatype error = WouldHitWall | WouldHitTail | TypeError | RangeError

datatype outcome = Returned | Thrown error

subsection \<open>JavaScript array access\<close>

text \<open>\<open>row[i]\<close>: the element, or \<open>undefined\<close> when \<open>i\<close> is not an index of the array.\<close>

definition js_get :: "CellValue list \<Rightarrow> int \<Rightarrow> CellValue" where
  "js_get row i = (if 0 \<le> i \<and> i < int (length row) then row ! nat i else Undefined)"

text \<open>\<open>board[i]\<close>: the row, or \<open>None\<close> for \<open>undefined\<close>.\<close>

definition js_row :: "GameBoard \<Rightarrow> int \<Rightarrow> CellValue list option" where
  "js_row b i = (if 0 \<le> i \<and> i < int (length b) then Some (b ! nat i) else None)"

text \<open>
  \<open>row[i] = v\<close>: inside the array the element is replaced; beyond its end the array is
  extended, the skipped places being holes; a negative \<open>i\<close> names a property that is not
  an element, and the elements stay as they are.
\<close>

definition js_set :: "CellValue list \<Rightarrow> int \<Rightarrow> CellValue \<Rightarrow> CellValue list" where
  "js_set row i v =
     (if i < 0 then row
      else if i < int (length row) then row[nat i := v]
      else row @ replicate (nat i - length row) Undefined @ [v])"

text \<open>\<open>x > 0\<close> on a value read from the board: \<open>undefined > 0\<close> is false.\<close>

fun positive :: "CellValue \<Rightarrow> bool" where
  "positive (Num v) = (0 < v)"
| "positive Undefined = False"

section \<open>The random source\<close>

text \<open>
  \<open>Math.random()\<close> returns a number in \<open>[0, 1)\<close>. The model takes the numbers it returns,
  in the order of the calls, as a list of rationals; product and floor are exact.
\<close>

definition randomIndex :: "rat \<Rightarrow> int \<Rightarrow> int" where
  "randomIndex r len = \<lfloor>r * of_int len\<rfloor>"

definition unit_draw :: "rat \<Rightarrow> bool" where
  "unit_draw r = (0 \<le> r \<and> r < 1)"

section \<open>placeRandomly\<close>

text \<open>
  One attempt consumes two draws, the row and then the column. A miss calls
  \<open>placeRandomly\<close> again; \<open>limit\<close> is the number of nested self-calls that the stack
  still allows, and a miss with none left throws \<open>RangeError\<close>. The draws are given as a
  list: \<open>None\<close> says that the draws given were used up before the call had returned or
  thrown. The result carries the game as the call left it and the draws not yet used.
  When \<open>game.board[...]\<close> is \<open>undefined\<close>, \<open>row.length\<close> throws before the second draw is
  made.
\<close>

fun placeRandomly ::
  "nat \<Rightarrow> rat list \<Rightarrow> Game \<Rightarrow> int \<Rightarrow> (outcome \<times> Game \<times> rat list) option" where
  "placeRandomly limit [] game v = None"
| "placeRandomly limit (r1 # ds) game v =
     (let rowIndex = randomIndex r1 (int (length (board game))) in
      case js_row (board game) rowIndex of
        None \<Rightarrow> Some (Thrown TypeError, game, ds)
      | Some row \<Rightarrow>
          (case ds of
             [] \<Rightarrow> None
           | r2 # ds' \<Rightarrow>
               (let columnIndex = randomIndex r2 (int (length row)) in
                if js_get row columnIndex = Num 0
                then Some (Returned,
                           game\<lparr>board := (board game)[nat rowIndex := js_set row columnIndex (Num v)]\<rparr>,
                           ds')
                else if limit = 0 then Some (Thrown RangeError, game, ds')
                else placeRandomly (limit - 1) ds' game v)))"

section \<open>findIndex\<close>

text \<open>
  The predicate of the source may assign to a variable of the enclosing function (the
  head search does), so it takes and returns a state \<open>'s\<close>. The loop returns the first
  index whose element satisfies the predicate, or \<open>-1\<close>, and the state after the calls made.
\<close>

primrec findIndex_loop ::
  "('a \<Rightarrow> int \<Rightarrow> 's \<Rightarrow> bool \<times> 's) \<Rightarrow> int \<Rightarrow> 'a list \<Rightarrow> 's \<Rightarrow> int \<times> 's" where
  "findIndex_loop peredicate i [] s = (- 1, s)"
| "findIndex_loop peredicate i (x # xs) s =
     (case peredicate x i s of
        (True, s') \<Rightarrow> (i, s')
      | (False, s') \<Rightarrow> findIndex_loop peredicate (i + 1) xs s')"

definition findIndex :: "'a list \<Rightarrow> ('a \<Rightarrow> int \<Rightarrow> 's \<Rightarrow> bool \<times> 's) \<Rightarrow> 's \<Rightarrow> int \<times> 's" where
  "findIndex array peredicate s = findIndex_loop peredicate 0 array s"

section \<open>init\<close>

text \<open>
  \<open>height\<close> defaults to \<open>width\<close> when the argument is left out. The two loops push
  \<open>height\<close> rows of \<open>width\<close> zeros; a bound that is not positive gives no iteration.
\<close>

definition emptyBoard :: "int \<Rightarrow> int \<Rightarrow> GameBoard" where
  "emptyBoard width height =
     map (\<lambda>i. map (\<lambda>j. Num 0) [0..<nat width]) [0..<nat height]"

definition init ::
  "nat \<Rightarrow> rat list \<Rightarrow> int \<Rightarrow> int option \<Rightarrow> (outcome \<times> Game \<times> rat list) option" where
  "init limit ds width height_arg =
     (let height = (case height_arg of None \<Rightarrow> width | Some h \<Rightarrow> h);
          game = \<lparr>board = emptyBoard width height, glength = 1\<rparr>
      in case placeRandomly limit ds game (glength game) of
           None \<Rightarrow> None
         | Some (Thrown e, game1, ds1) \<Rightarrow> Some (Thrown e, game1, ds1)
         | Some (Returned, game1, ds1) \<Rightarrow> placeRandomly limit ds1 game1 (- 1))"

section \<open>advance\<close>

text \<open>
  The head search: the outer predicate stores the column found in each row it visits into
  \<open>headColumn\<close>, which is unassigned (\<open>None\<close>) until the first row is visited.
\<close>

definition findHead :: "Game \<Rightarrow> int \<times> int option" where
  "findHead game =
     findIndex (board game)
       (\<lambda>row i headColumn.
          let c = fst (findIndex row (\<lambda>cell j u. (cell = Num (glength game), u)) ())
          in (c \<noteq> - 1, Some c))
       None"

text \<open>
  The new position of the head. An unassigned column stays unusable after \<open>+= 1\<close> or
  \<open>-= 1\<close> (\<open>NaN\<close>): every comparison with it is false and no array has an element there.
\<close>

definition newHead :: "Direction \<Rightarrow> int \<times> int option \<Rightarrow> int \<times> int option" where
  "newHead direction h =
     (case h of (headRow, headColumn) \<Rightarrow>
        if direction = North then (headRow - 1, headColumn)
        else if direction = South then (headRow + 1, headColumn)
        else if direction = East then (headRow, map_option (\<lambda>c. c + 1) headColumn)
        else (headRow, map_option (\<lambda>c. c - 1) headColumn))"

definition col_lt :: "int option \<Rightarrow> int \<Rightarrow> bool" where
  "col_lt c n = (case c of None \<Rightarrow> False | Some k \<Rightarrow> k < n)"

definition col_ge :: "int option \<Rightarrow> int \<Rightarrow> bool" where
  "col_ge c n = (case c of None \<Rightarrow> False | Some k \<Rightarrow> n \<le> k)"

definition col_get :: "CellValue list \<Rightarrow> int option \<Rightarrow> CellValue" where
  "col_get row c = (case c of None \<Rightarrow> Undefined | Some k \<Rightarrow> js_get row k)"

definition col_set :: "CellValue list \<Rightarrow> int option \<Rightarrow> CellValue \<Rightarrow> CellValue list" where
  "col_set row c v = (case c of None \<Rightarrow> row | Some k \<Rightarrow> js_set row k v)"

text \<open>The tick of one cell: \<open>if (cell > 0) cell -= 1\<close>.\<close>

fun tick :: "CellValue \<Rightarrow> CellValue" where
  "tick (Num v) = (if 0 < v then Num (v - 1) else Num v)"
| "tick Undefined = Undefined"

text \<open>
  \<open>advance\<close> mutates the game it is given and may throw; the result is the outcome and
  the game as the call left it. \<open>None\<close> is \<open>placeRandomly\<close> having used up the draws
  given.
\<close>

definition advance ::
  "nat \<Rightarrow> rat list \<Rightarrow> Game \<Rightarrow> Direction \<Rightarrow> (outcome \<times> Game) option" where
  "advance limit ds game direction =
     (case newHead direction (findHead game) of (newHeadRow, newHeadColumn) \<Rightarrow>
        if newHeadRow < 0 \<or> col_lt newHeadColumn 0 \<or> int (length (board game)) \<le> newHeadRow
        then Some (Thrown WouldHitWall, game)
        else
          (case js_row (board game) 0 of
             None \<Rightarrow> Some (Thrown TypeError, game)
           | Some row0 \<Rightarrow>
               if col_ge newHeadColumn (int (length row0))
               then Some (Thrown WouldHitWall, game)
               else
                 (case js_row (board game) newHeadRow of
                    None \<Rightarrow> Some (Thrown TypeError, game)
                  | Some row \<Rightarrow>
                      if positive (col_get row newHeadColumn)
                      then Some (Thrown WouldHitTail, game)
                      else if col_get row newHeadColumn = Num (- 1)
                      then
                        (let game1 = game\<lparr>glength := glength game + 1\<rparr>;
                             game2 = game1\<lparr>board := (board game1)
                                       [nat newHeadRow := col_set row newHeadColumn (Num (glength game1))]\<rparr>
                         in map_option (\<lambda>(out, g, rest). (out, g))
                              (placeRandomly limit ds game2 (- 1)))
                      else
                        (let ticked = map (map tick) (board game);
                             row' = ticked ! nat newHeadRow
                         in Some (Returned,
                                  game\<lparr>board := ticked
                                    [nat newHeadRow := col_set row' newHeadColumn (Num (glength game))]\<rparr>)))))"

section \<open>Reading the board\<close>

text \<open>\<open>board[r][c]\<close> as a value: \<open>Undefined\<close> outside the board.\<close>

definition cell_at :: "GameBoard \<Rightarrow> int \<Rightarrow> int \<Rightarrow> CellValue" where
  "cell_at b r c = (case js_row b r of None \<Rightarrow> Undefined | Some row \<Rightarrow> js_get row c)"

text \<open>The number of cells that hold the value \<open>v\<close>, and of cells that hold a positive value.\<close>

definition holding :: "int \<Rightarrow> GameBoard \<Rightarrow> nat" where
  "holding v b = count_list (concat b) (Num v)"

definition occupied :: "GameBoard \<Rightarrow> nat" where
  "occupied b = length (filter positive (concat b))"

text \<open>The candidate position: the head's position moved one cell in the direction.\<close>

fun candidate :: "Direction \<Rightarrow> int \<times> int \<Rightarrow> int \<times> int" where
  "candidate North (r, c) = (r - 1, c)"
| "candidate South (r, c) = (r + 1, c)"
| "candidate East (r, c) = (r, c + 1)"
| "candidate West (r, c) = (r, c - 1)"

text \<open>
  The number of columns is the length of the first row, as in the wall check; in a
  rectangular board it is the length of every row.
\<close>

definition columns :: "GameBoard \<Rightarrow> int" where
  "columns b = (case b of [] \<Rightarrow> 0 | row0 # rest \<Rightarrow> int (length row0))"

definition in_bounds :: "GameBoard \<Rightarrow> int \<times> int \<Rightarrow> bool" where
  "in_bounds b p = (0 \<le> fst p \<and> fst p < int (length b) \<and> 0 \<le> snd p \<and> snd p < columns b)"

section \<open>Auxiliary definitions\<close>

text \<open>The column search of one row.\<close>

definition findColumn :: "int \<Rightarrow> CellValue list \<Rightarrow> int" where
  "findColumn len row = fst (findIndex row (\<lambda>cell j u. (cell = Num len, u)) ())"

text \<open>
  The head is at position \<open>p\<close> and no other cell holds \<open>game.length\<close>.
\<close>

definition unique_head :: "Game \<Rightarrow> int \<times> int \<Rightarrow> bool" where
  "unique_head g p =
     (cell_at (board g) (fst p) (snd p) = Num (glength g) \<and> holding (glength g) (board g) = 1)"

text \<open>
  The game after the two assignments of the growth branch (before the new target is
  placed), and after the tick loop and the head write of an ordinary move, for the
  candidate row \<open>r\<close> and column \<open>c\<close>.
\<close>

definition grown :: "Game \<Rightarrow> int \<Rightarrow> int \<Rightarrow> Game" where
  "grown g r c =
     g\<lparr>glength := glength g + 1,
       board := (board g)[nat r := js_set (board g ! nat r) c (Num (glength g + 1))]\<rparr>"

definition moved :: "Game \<Rightarrow> int \<Rightarrow> int \<Rightarrow> Game" where
  "moved g r c =
     g\<lparr>board := (map (map tick) (board g))
                  [nat r := js_set (map tick (board g ! nat r)) c (Num (glength g))]\<rparr>"

text \<open>
  The value of the cell the head would move to, as \<open>advance\<close> computes the position:
  \<open>Undefined\<close> when that position is no cell of the board.
\<close>

definition candidate_cell :: "Game \<Rightarrow> Direction \<Rightarrow> CellValue" where
  "candidate_cell g d =
     (case newHead d (findHead g) of (r, c) \<Rightarrow>
        (case c of None \<Rightarrow> Undefined | Some k \<Rightarrow> cell_at (board g) r k))"

text \<open>
  A run of calls, as the key handler makes them: each call has its direction and the
  draws made during it, and all are made at the same depth of the call stack. A call that
  throws leaves the game in use for the next call.
\<close>

fun advance_all :: "nat \<Rightarrow> (rat list \<times> Direction) list \<Rightarrow> Game \<Rightarrow> Game option" where
  "advance_all limit [] g = Some g"
| "advance_all limit ((ds, d) # calls) g =
     (case advance limit ds g d of
        None \<Rightarrow> None
      | Some (out, g') \<Rightarrow> advance_all limit calls g')"

text \<open>
  The cell that one attempt of \<open>placeRandomly\<close> reads, for its two draws, and whether
  one of the attempts that the stack allows (the first and \<open>limit\<close> more) reads an empty
  cell.
\<close>

definition selected :: "GameBoard \<Rightarrow> rat \<Rightarrow> rat \<Rightarrow> CellValue" where
  "selected b r1 r2 =
     (case js_row b (randomIndex r1 (int (length b))) of
        None \<Rightarrow> Undefined
      | Some row \<Rightarrow> js_get row (randomIndex r2 (int (length row))))"

fun finds_empty :: "nat \<Rightarrow> rat list \<Rightarrow> GameBoard \<Rightarrow> bool" where
  "finds_empty limit (r1 # r2 # ds) b =
     (selected b r1 r2 = Num 0 \<or> (limit \<noteq> 0 \<and> finds_empty (limit - 1) ds b))"
| "finds_empty limit ds b = False"

text \<open>
  Draws that let \<open>init\<close> return: the first attempt puts the snake on the empty board, and
  one of the attempts that the stack allows for the target draws another cell than the
  snake's.
\<close>

fun finds_other :: "nat \<Rightarrow> rat list \<Rightarrow> int \<Rightarrow> int \<Rightarrow> int \<times> int \<Rightarrow> bool" where
  "finds_other limit (r1 # r2 # ds) width height p =
     ((randomIndex r1 height, randomIndex r2 width) \<noteq> p
      \<or> (limit \<noteq> 0 \<and> finds_other (limit - 1) ds width height p))"
| "finds_other limit ds width height p = False"

definition draws_suffice :: "nat \<Rightarrow> rat list \<Rightarrow> int \<Rightarrow> int \<Rightarrow> bool" where
  "draws_suffice limit ds width height =
     (case ds of
        r1 # r2 # ds' \<Rightarrow>
          finds_other limit ds' width height (randomIndex r1 height, randomIndex r2 width)
      | _ \<Rightarrow> False)"

text \<open>
  The shape of the snake on the board: the length is at least 1, each of the values
  \<open>1, ..., length\<close> is held by exactly one cell, no cell holds a greater value, and at
  most one cell holds the target.
\<close>

definition snake_ok :: "Game \<Rightarrow> bool" where
  "snake_ok g =
     (1 \<le> glength g
      \<and> (\<forall>k. 1 \<le> k \<longrightarrow> holding k (board g) = (if k \<le> glength g then 1 else 0))
      \<and> holding (- 1) (board g) \<le> 1)"

text \<open>A non-empty rectangular grid: every row has the length of the first, which is positive.\<close>

definition grid :: "GameBoard \<Rightarrow> bool" where
  "grid b = (0 < columns b \<and> list_all (\<lambda>row. int (length row) = columns b) b)"

section \<open>The same program with every index checked\<close>

text \<open>
  To say that no read and no write leaves its array, the functions are written a second
  time with each access \<open>array[i]\<close> of the source made through \<open>chk_get\<close> or \<open>chk_set\<close>,
  which give \<open>OutOfBounds\<close> when \<open>i\<close> is not an index of the array; the first such access
  ends the run with \<open>OutOfBounds\<close>. Everything else is as above.
\<close>

datatype 'a access = OutOfBounds | InBounds 'a

definition chk_get :: "'a list \<Rightarrow> int \<Rightarrow> 'a access" where
  "chk_get xs i = (if 0 \<le> i \<and> i < int (length xs) then InBounds (xs ! nat i) else OutOfBounds)"

definition chk_set :: "'a list \<Rightarrow> int \<Rightarrow> 'a \<Rightarrow> 'a list access" where
  "chk_set xs i v =
     (if 0 \<le> i \<and> i < int (length xs) then InBounds (xs[nat i := v]) else OutOfBounds)"

text \<open>An unassigned column (\<open>undefined\<close>, \<open>NaN\<close>) is no index.\<close>

definition chk_col_get :: "CellValue list \<Rightarrow> int option \<Rightarrow> CellValue access" where
  "chk_col_get row c = (case c of None \<Rightarrow> OutOfBounds | Some k \<Rightarrow> chk_get row k)"

definition chk_col_set :: "CellValue list \<Rightarrow> int option \<Rightarrow> CellValue \<Rightarrow> CellValue list access" where
  "chk_col_set row c v = (case c of None \<Rightarrow> OutOfBounds | Some k \<Rightarrow> chk_set row k v)"

fun placeRandomly_chk ::
  "nat \<Rightarrow> rat list \<Rightarrow> Game \<Rightarrow> int \<Rightarrow> (outcome \<times> Game \<times> rat list) access option" where
  "placeRandomly_chk limit [] game v = None"
| "placeRandomly_chk limit (r1 # ds) game v =
     (let rowIndex = randomIndex r1 (int (length (board game))) in
      case chk_get (board game) rowIndex of
        OutOfBounds \<Rightarrow> Some OutOfBounds
      | InBounds row \<Rightarrow>
          (case ds of
             [] \<Rightarrow> None
           | r2 # ds' \<Rightarrow>
               (let columnIndex = randomIndex r2 (int (length row)) in
                case chk_get row columnIndex of
                  OutOfBounds \<Rightarrow> Some OutOfBounds
                | InBounds cell \<Rightarrow>
                    if cell = Num 0
                    then (case chk_set row columnIndex (Num v) of
                            OutOfBounds \<Rightarrow> Some OutOfBounds
                          | InBounds row' \<Rightarrow>
                              Some (InBounds (Returned,
                                     game\<lparr>board := (board game)[nat rowIndex := row']\<rparr>, ds')))
                    else if limit = 0 then Some (InBounds (Thrown RangeError, game, ds'))
                    else placeRandomly_chk (limit - 1) ds' game v)))"

text \<open>The loop of \<open>findIndex\<close> over the indices \<open>0, ..., array.length - 1\<close>.\<close>

primrec findIndex_chk_loop ::
  "('a \<Rightarrow> int \<Rightarrow> 's \<Rightarrow> (bool \<times> 's) access) \<Rightarrow> 'a list \<Rightarrow> nat list \<Rightarrow> 's \<Rightarrow> (int \<times> 's) access" where
  "findIndex_chk_loop peredicate array [] s = InBounds (- 1, s)"
| "findIndex_chk_loop peredicate array (i # rest) s =
     (case chk_get array (int i) of
        OutOfBounds \<Rightarrow> OutOfBounds
      | InBounds x \<Rightarrow>
          (case peredicate x (int i) s of
             OutOfBounds \<Rightarrow> OutOfBounds
           | InBounds (True, s') \<Rightarrow> InBounds (int i, s')
           | InBounds (False, s') \<Rightarrow> findIndex_chk_loop peredicate array rest s'))"

definition findIndex_chk ::
  "'a list \<Rightarrow> ('a \<Rightarrow> int \<Rightarrow> 's \<Rightarrow> (bool \<times> 's) access) \<Rightarrow> 's \<Rightarrow> (int \<times> 's) access" where
  "findIndex_chk array peredicate s =
     findIndex_chk_loop peredicate array [0..<length array] s"

definition findHead_chk :: "Game \<Rightarrow> (int \<times> int option) access" where
  "findHead_chk game =
     findIndex_chk (board game)
       (\<lambda>row i headColumn.
          case findIndex_chk row (\<lambda>cell j u. InBounds (cell = Num (glength game), u)) () of
            OutOfBounds \<Rightarrow> OutOfBounds
          | InBounds (c, u) \<Rightarrow> InBounds (c \<noteq> - 1, Some c))
       None"

text \<open>The two loops that tick the segments down: \<open>board[i][j]\<close> is read, and written when positive.\<close>

primrec tick_row_chk :: "CellValue list \<Rightarrow> nat list \<Rightarrow> CellValue list access" where
  "tick_row_chk row [] = InBounds row"
| "tick_row_chk row (j # rest) =
     (case chk_get row (int j) of
        OutOfBounds \<Rightarrow> OutOfBounds
      | InBounds cell \<Rightarrow>
          if positive cell
          then (case chk_set row (int j) (tick cell) of
                  OutOfBounds \<Rightarrow> OutOfBounds
                | InBounds row' \<Rightarrow> tick_row_chk row' rest)
          else tick_row_chk row rest)"

primrec tick_board_chk :: "GameBoard \<Rightarrow> nat list \<Rightarrow> GameBoard access" where
  "tick_board_chk b [] = InBounds b"
| "tick_board_chk b (i # rest) =
     (case chk_get b (int i) of
        OutOfBounds \<Rightarrow> OutOfBounds
      | InBounds row \<Rightarrow>
          (case tick_row_chk row [0..<length row] of
             OutOfBounds \<Rightarrow> OutOfBounds
           | InBounds row' \<Rightarrow> tick_board_chk (b[i := row']) rest))"

text \<open>
  The read \<open>board[r][c]\<close> and the statement \<open>board[r][c] = v\<close>: the row is read from the
  board, then its element is read or written.
\<close>

definition read_cell_chk :: "GameBoard \<Rightarrow> int \<Rightarrow> int option \<Rightarrow> CellValue access" where
  "read_cell_chk b r c =
     (case chk_get b r of OutOfBounds \<Rightarrow> OutOfBounds | InBounds row \<Rightarrow> chk_col_get row c)"

definition write_cell_chk :: "GameBoard \<Rightarrow> int \<Rightarrow> int option \<Rightarrow> CellValue \<Rightarrow> GameBoard access" where
  "write_cell_chk b r c v =
     (case chk_get b r of
        OutOfBounds \<Rightarrow> OutOfBounds
      | InBounds row \<Rightarrow>
          (case chk_col_set row c v of
             OutOfBounds \<Rightarrow> OutOfBounds
           | InBounds row' \<Rightarrow> InBounds (b[nat r := row'])))"

text \<open>
  \<open>advance\<close>: the accesses are \<open>board[0]\<close> in the wall check, \<open>board[newHeadRow][newHeadColumn]\<close>
  in the tail check (the target check reads the same element again), the reads and
  writes of the tick loops, and the write of the head in either branch.
\<close>

definition advance_chk ::
  "nat \<Rightarrow> rat list \<Rightarrow> Game \<Rightarrow> Direction \<Rightarrow> (outcome \<times> Game) access option" where
  "advance_chk limit ds game direction =
     (case findHead_chk game of
        OutOfBounds \<Rightarrow> Some OutOfBounds
      | InBounds h \<Rightarrow>
          (case newHead direction h of (newHeadRow, newHeadColumn) \<Rightarrow>
             if newHeadRow < 0 \<or> col_lt newHeadColumn 0
                \<or> int (length (board game)) \<le> newHeadRow
             then Some (InBounds (Thrown WouldHitWall, game))
             else
               (case chk_get (board game) 0 of
                  OutOfBounds \<Rightarrow> Some OutOfBounds
                | InBounds row0 \<Rightarrow>
                    if col_ge newHeadColumn (int (length row0))
                    then Some (InBounds (Thrown WouldHitWall, game))
                    else
                      (case read_cell_chk (board game) newHeadRow newHeadColumn of
                         OutOfBounds \<Rightarrow> Some OutOfBounds
                       | InBounds cell \<Rightarrow>
                           if positive cell
                           then Some (InBounds (Thrown WouldHitTail, game))
                           else if cell = Num (- 1)
                           then
                             (let game1 = game\<lparr>glength := glength game + 1\<rparr> in
                              case write_cell_chk (board game1) newHeadRow newHeadColumn
                                     (Num (glength game1)) of
                                OutOfBounds \<Rightarrow> Some OutOfBounds
                              | InBounds b' \<Rightarrow>
                                  (case placeRandomly_chk limit ds (game1\<lparr>board := b'\<rparr>) (- 1) of
                                     None \<Rightarrow> None
                                   | Some OutOfBounds \<Rightarrow> Some OutOfBounds
                                   | Some (InBounds (out, g, rest)) \<Rightarrow> Some (InBounds (out, g))))
                           else
                             (case tick_board_chk (board game) [0..<length (board game)] of
                                OutOfBounds \<Rightarrow> Some OutOfBounds
                              | InBounds ticked \<Rightarrow>
                                  (case write_cell_chk ticked newHeadRow newHeadColumn
                                          (Num (glength game)) of
                                     OutOfBounds \<Rightarrow> Some OutOfBounds
                                   | InBounds b' \<Rightarrow>
                                       Some (InBounds (Returned, game\<lparr>board := b'\<rparr>))))))))"

section \<open>Array access and the random placement\<close>

lemma findIndex_loop_none:
  "\<forall>x\<in>set xs. \<not> Q x \<Longrightarrow> fst (findIndex_loop (\<lambda>x j s. (Q x, F x s)) i xs s) = - 1"
  by (induction xs arbitrary: i s) auto

lemma findIndex_loop_first:
  "k < length xs \<Longrightarrow> Q (xs ! k) \<Longrightarrow> \<forall>j<k. \<not> Q (xs ! j) \<Longrightarrow>
   fst (findIndex_loop (\<lambda>x j s. (Q x, F x s)) i xs s) = i + int k"
proof (induction xs arbitrary: i k s)
  case Nil
  then show ?case by simp
next
  case (Cons x xs)
  show ?case
  proof (cases k)
    case 0
    with Cons.prems show ?thesis by simp
  next
    case (Suc m)
    with Cons.prems have nx: "\<not> Q x" by auto
    from Suc Cons.prems have "m < length xs" "Q (xs ! m)" "\<forall>j<m. \<not> Q (xs ! j)" by auto
    from Cons.IH [OF this] nx Suc show ?thesis by simp
  qed
qed

lemma findIndex_loop_state_first:
  "k < length xs \<Longrightarrow> Q (xs ! k) \<Longrightarrow> \<forall>j<k. \<not> Q (xs ! j) \<Longrightarrow>
   findIndex_loop (\<lambda>x j s. (Q x, G x)) i xs s = (i + int k, G (xs ! k))"
proof (induction xs arbitrary: i k s)
  case Nil
  then show ?case by simp
next
  case (Cons x xs)
  show ?case
  proof (cases k)
    case 0
    with Cons.prems show ?thesis by simp
  next
    case (Suc m)
    with Cons.prems have nx: "\<not> Q x" by auto
    from Suc Cons.prems have "m < length xs" "Q (xs ! m)" "\<forall>j<m. \<not> Q (xs ! j)" by auto
    from Cons.IH [OF this] nx Suc show ?thesis by simp
  qed
qed

lemma findIndex_loop_state_none:
  "xs \<noteq> [] \<Longrightarrow> \<forall>x\<in>set xs. \<not> Q x \<Longrightarrow>
   findIndex_loop (\<lambda>x j s. (Q x, G x)) i xs s = (- 1, G (last xs))"
proof (induction xs arbitrary: i s)
  case Nil
  then show ?case by simp
next
  case (Cons x xs)
  show ?case
  proof (cases "xs = []")
    case True
    with Cons.prems show ?thesis by simp
  next
    case False
    from Cons.prems have "\<forall>x\<in>set xs. \<not> Q x" by simp
    from Cons.IH [OF False this] Cons.prems False show ?thesis by simp
  qed
qed

lemma findColumn_none: "Num len \<notin> set row \<Longrightarrow> findColumn len row = - 1"
  unfolding findColumn_def findIndex_def
  by (rule findIndex_loop_none) auto

lemma findColumn_first:
  "k < length row \<Longrightarrow> row ! k = Num len \<Longrightarrow> \<forall>j<k. row ! j \<noteq> Num len \<Longrightarrow>
   findColumn len row = int k"
  unfolding findColumn_def findIndex_def
  using findIndex_loop_first [of k row "\<lambda>cell. cell = Num len" "\<lambda>x s. s" 0 "()"] by simp

lemma findColumn_range: "findColumn len row = - 1 \<or> (0 \<le> findColumn len row \<and> findColumn len row < int (length row) \<and> row ! nat (findColumn len row) = Num len)"
proof (cases "Num len \<in> set row")
  case False
  then show ?thesis by (simp add: findColumn_none)
next
  case True
  define k where "k = (LEAST k. k < length row \<and> row ! k = Num len)"
  from True obtain k0 where "k0 < length row \<and> row ! k0 = Num len"
    by (auto simp: in_set_conv_nth)
  then have k: "k < length row \<and> row ! k = Num len" unfolding k_def by (rule LeastI)
  have "\<forall>j<k. row ! j \<noteq> Num len"
  proof (intro allI impI notI)
    fix j assume "j < k" "row ! j = Num len"
    with k have "j < length row \<and> row ! j = Num len" by simp
    then have "k \<le> j" unfolding k_def by (rule Least_le)
    with \<open>j < k\<close> show False by simp
  qed
  with k have "findColumn len row = int k" by (simp add: findColumn_first)
  with k show ?thesis by simp
qed

lemma findHead_alt:
  "findHead g = findIndex_loop (\<lambda>row i s. (findColumn (glength g) row \<noteq> - 1, Some (findColumn (glength g) row))) 0 (board g) None"
  by (simp add: findHead_def findIndex_def findColumn_def Let_def)

lemma cell_at_Num:
  "cell_at b r c = Num x \<Longrightarrow>
     0 \<le> r \<and> r < int (length b) \<and> 0 \<le> c \<and> c < int (length (b ! nat r)) \<and> b ! nat r ! nat c = Num x"
  by (auto simp: cell_at_def js_row_def js_get_def split: if_splits)

lemma cell_at_inside:
  "r < length b \<Longrightarrow> c < length (b ! r) \<Longrightarrow> cell_at b (int r) (int c) = b ! r ! c"
  by (simp add: cell_at_def js_row_def js_get_def)

lemma count_list_unique_index:
  "count_list xs x = 1 \<Longrightarrow> i < length xs \<Longrightarrow> j < length xs \<Longrightarrow> xs ! i = x \<Longrightarrow> xs ! j = x \<Longrightarrow> i = j"
proof (induction xs arbitrary: i j)
  case Nil
  then show ?case by simp
next
  case (Cons y ys)
  show ?case
  proof (cases "y = x")
    case True
    with Cons.prems have "count_list ys x = 0" by simp
    then have nin: "x \<notin> set ys" by (simp add: count_list_0_iff)
    have "i = 0"
    proof (rule ccontr)
      assume "i \<noteq> 0"
      with Cons.prems have "ys ! (i - 1) = x" "i - 1 < length ys" by (auto simp: nth_Cons')
      with nin show False by (metis nth_mem)
    qed
    moreover have "j = 0"
    proof (rule ccontr)
      assume "j \<noteq> 0"
      with Cons.prems have "ys ! (j - 1) = x" "j - 1 < length ys" by (auto simp: nth_Cons')
      with nin show False by (metis nth_mem)
    qed
    ultimately show ?thesis by simp
  next
    case False
    with Cons.prems have c: "count_list ys x = 1" by simp
    from False Cons.prems have "i \<noteq> 0" "j \<noteq> 0" by (auto simp: nth_Cons' split: if_splits)
    with Cons.prems have "i - 1 < length ys" "j - 1 < length ys" "ys ! (i - 1) = x" "ys ! (j - 1) = x"
      by (auto simp: nth_Cons')
    from Cons.IH [OF c this] \<open>i \<noteq> 0\<close> \<open>j \<noteq> 0\<close> show ?thesis by simp
  qed
qed

lemma count_list_concat_pos:
  "r < length b \<Longrightarrow> x \<in> set (b ! r) \<Longrightarrow> 0 < count_list (concat b) x"
proof -
  assume "r < length b" "x \<in> set (b ! r)"
  then have "x \<in> set (concat b)" by (auto intro: nth_mem)
  then show ?thesis by (metis count_list_0_iff gr0I)
qed

lemma board_unique_index:
  "count_list (concat b) x = 1 \<Longrightarrow> r < length b \<Longrightarrow> c < length (b ! r) \<Longrightarrow> b ! r ! c = x \<Longrightarrow>
   r' < length b \<Longrightarrow> c' < length (b ! r') \<Longrightarrow> b ! r' ! c' = x \<Longrightarrow> r = r' \<and> c = c'"
proof (induction b arbitrary: r r')
  case Nil
  then show ?case by simp
next
  case (Cons row rest)
  from Cons.prems have total: "count_list row x + count_list (concat rest) x = 1" by simp
  have in_rest: "0 < count_list (concat rest) x" if "0 < k" "k < length (row # rest)" "m < length ((row # rest) ! k)" "(row # rest) ! k ! m = x" for k m
  proof -
    from that have "k - 1 < length rest" "x \<in> set (rest ! (k - 1))" by (auto simp: nth_Cons')
    then show ?thesis by (rule count_list_concat_pos)
  qed
  have in_row: "0 < count_list row x" if "m < length ((row # rest) ! 0)" "(row # rest) ! 0 ! m = x" for m
  proof -
    from that have "x \<in> set row" by auto
    then show ?thesis by (metis count_list_0_iff gr0I)
  qed
  show ?case
  proof (cases "r = 0")
    case r0: True
    show ?thesis
    proof (cases "r' = 0")
      case True
      from in_row Cons.prems r0 have "0 < count_list row x" by blast
      with total have "count_list row x = 1" by simp
      from count_list_unique_index [OF this, of c c'] Cons.prems r0 True show ?thesis by simp
    next
      case False
      with in_rest [of r' c'] Cons.prems have "0 < count_list (concat rest) x" by simp
      moreover from in_row [of c] Cons.prems r0 have "0 < count_list row x" by simp
      ultimately show ?thesis using total by simp
    qed
  next
    case rpos: False
    with in_rest [of r c] Cons.prems have pr: "0 < count_list (concat rest) x" by simp
    show ?thesis
    proof (cases "r' = 0")
      case True
      with in_row [of c'] Cons.prems have "0 < count_list row x" by simp
      with pr total show ?thesis by simp
    next
      case False
      from pr total have c1: "count_list (concat rest) x = 1" by simp
      from rpos False Cons.prems
      have "r - 1 < length rest" "c < length (rest ! (r - 1))" "rest ! (r - 1) ! c = x"
           "r' - 1 < length rest" "c' < length (rest ! (r' - 1))" "rest ! (r' - 1) ! c' = x"
        by (auto simp: nth_Cons')
      from Cons.IH [OF c1 this] rpos False show ?thesis by auto
    qed
  qed
qed

lemma holding_unique:
  assumes "holding v b = 1" "cell_at b r c = Num v" "cell_at b r' c' = Num v"
  shows "r = r' \<and> c = c'"
proof -
  from cell_at_Num [OF assms(2)] cell_at_Num [OF assms(3)] assms(1)
  have "nat r = nat r' \<and> nat c = nat c'"
    by (intro board_unique_index [of b "Num v"]) (auto simp: holding_def)
  moreover from cell_at_Num [OF assms(2)] have "0 \<le> r" "0 \<le> c" by simp_all
  moreover from cell_at_Num [OF assms(3)] have "0 \<le> r'" "0 \<le> c'" by simp_all
  ultimately show ?thesis by arith
qed

lemma findHead_unique:
  assumes "unique_head g (hr, hc)"
  shows "findHead g = (hr, Some hc)"
proof -
  let ?len = "glength g" and ?b = "board g"
  from assms have at: "cell_at ?b hr hc = Num ?len" and one: "holding ?len ?b = 1"
    by (simp_all add: unique_head_def)
  from cell_at_Num [OF at]
  have r: "0 \<le> hr" "nat hr < length ?b" and c: "0 \<le> hc" "nat hc < length (?b ! nat hr)"
    and v: "?b ! nat hr ! nat hc = Num ?len" by (simp_all add: nat_less_iff)
  have col: "findColumn ?len (?b ! nat hr) = hc"
  proof -
    have "\<forall>j<nat hc. ?b ! nat hr ! j \<noteq> Num ?len"
    proof (intro allI impI notI)
      fix j assume j: "j < nat hc" "?b ! nat hr ! j = Num ?len"
      with r c have "cell_at ?b (int (nat hr)) (int j) = Num ?len"
        by (subst cell_at_inside) auto
      from holding_unique [OF one at this] j show False by simp
    qed
    from findColumn_first [OF c(2) v this] c show ?thesis by simp
  qed
  have before: "\<forall>j<nat hr. \<not> findColumn ?len (?b ! j) \<noteq> - 1"
  proof (intro allI impI notI)
    fix j assume j: "j < nat hr" "findColumn ?len (?b ! j) \<noteq> - 1"
    with findColumn_range [of ?len "?b ! j"]
    have k: "0 \<le> findColumn ?len (?b ! j)" "nat (findColumn ?len (?b ! j)) < length (?b ! j)"
         "?b ! j ! nat (findColumn ?len (?b ! j)) = Num ?len" by auto
    from j r have "j < length ?b" by simp
    with k have "cell_at ?b (int j) (int (nat (findColumn ?len (?b ! j)))) = Num ?len"
      by (subst cell_at_inside) auto
    from holding_unique [OF one at this] j show False by simp
  qed
  from c have "hc \<noteq> - 1" by simp
  with col have here: "findColumn ?len (?b ! nat hr) \<noteq> - 1" by simp
  from findIndex_loop_state_first [of "nat hr" ?b "\<lambda>row. findColumn ?len row \<noteq> - 1",
        OF r(2) here before, of "\<lambda>row. Some (findColumn ?len row)" 0 None] col r
  show ?thesis by (simp add: findHead_alt)
qed

lemma newHead_unique:
  "unique_head g p \<Longrightarrow>
   newHead d (findHead g) = (fst (candidate d p), Some (snd (candidate d p)))"
  by (cases p; cases d) (simp_all add: findHead_unique newHead_def)

lemma advance_cases:
  assumes "newHead d (findHead g) = (r, Some c)"
  shows "advance limit ds g d =
     (if \<not> in_bounds (board g) (r, c) then Some (Thrown WouldHitWall, g)
      else if positive (cell_at (board g) r c) then Some (Thrown WouldHitTail, g)
      else if cell_at (board g) r c = Num (- 1)
      then map_option (\<lambda>(out, g', rest). (out, g')) (placeRandomly limit ds (grown g r c) (- 1))
      else Some (Returned, moved g r c))"
proof (cases "board g")
  case Nil
  with assms show ?thesis
    by (auto simp: advance_def in_bounds_def col_lt_def)
next
  case (Cons row0 rest)
  then have r0: "js_row (board g) 0 = Some row0" and cols: "columns (board g) = int (length row0)"
    by (simp_all add: js_row_def columns_def)
  show ?thesis
  proof (cases "in_bounds (board g) (r, c)")
    case False
    with assms r0 cols show ?thesis
      by (auto simp: advance_def in_bounds_def col_lt_def col_ge_def)
  next
    case True
    then have row: "js_row (board g) r = Some (board g ! nat r)"
      and tk: "map (map tick) (board g) ! nat r = map tick (board g ! nat r)"
      by (simp_all add: in_bounds_def js_row_def nat_less_iff)
    from True assms r0 cols row tk show ?thesis
      by (simp add: advance_def in_bounds_def col_lt_def col_ge_def col_get_def
          col_set_def cell_at_def grown_def moved_def Let_def)
  qed
qed

lemma findHead_column:
  "board g \<noteq> [] \<Longrightarrow> \<exists>r c. findHead g = (r, Some c)"
proof -
  assume ne: "board g \<noteq> []"
  let ?Q = "\<lambda>row. findColumn (glength g) row \<noteq> - 1"
  let ?G = "\<lambda>row. Some (findColumn (glength g) row)"
  show ?thesis
  proof (cases "\<forall>x\<in>set (board g). \<not> ?Q x")
    case True
    from findIndex_loop_state_none [of "board g" ?Q ?G 0 None, OF ne True]
    show ?thesis by (simp add: findHead_alt)
  next
    case False
    then obtain k0 where "k0 < length (board g) \<and> ?Q (board g ! k0)"
      by (auto simp: in_set_conv_nth)
    define k where "k = (LEAST k. k < length (board g) \<and> ?Q (board g ! k))"
    from \<open>k0 < length (board g) \<and> ?Q (board g ! k0)\<close>
    have k: "k < length (board g) \<and> ?Q (board g ! k)" unfolding k_def by (rule LeastI)
    have "\<forall>j<k. \<not> ?Q (board g ! j)"
    proof (intro allI impI notI)
      fix j assume "j < k" "?Q (board g ! j)"
      with k have "j < length (board g) \<and> ?Q (board g ! j)" by simp
      then have "k \<le> j" unfolding k_def by (rule Least_le)
      with \<open>j < k\<close> show False by simp
    qed
    with findIndex_loop_state_first [of k "board g" ?Q ?G 0 None] k
    show ?thesis by (simp add: findHead_alt)
  qed
qed

lemma newHead_column:
  "board g \<noteq> [] \<Longrightarrow> \<exists>r c. newHead d (findHead g) = (r, Some c)"
proof -
  assume "board g \<noteq> []"
  from findHead_column [OF this] obtain r c where "findHead g = (r, Some c)" by blast
  then show ?thesis by (cases d) (simp_all add: newHead_def)
qed

lemma advance_empty_board:
  "board g = [] \<Longrightarrow> advance limit ds g d = Some (Thrown WouldHitWall, g)"
  by (cases "newHead d (findHead g)") (auto simp: advance_def)

section \<open>placeRandomly: outcomes and effect\<close>

lemma js_get_Num:
  "js_get row c = Num x \<Longrightarrow> 0 \<le> c \<and> c < int (length row) \<and> row ! nat c = Num x"
  by (auto simp: js_get_def split: if_splits)

lemma js_row_Some:
  "js_row b r = Some row \<Longrightarrow> 0 \<le> r \<and> r < int (length b) \<and> b ! nat r = row"
  by (auto simp: js_row_def split: if_splits)

lemma js_set_inside:
  "0 \<le> c \<Longrightarrow> c < int (length row) \<Longrightarrow> js_set row c x = row[nat c := x]"
  by (simp add: js_set_def)

lemma randomIndex_range:
  assumes "unit_draw r" "0 < n"
  shows "0 \<le> randomIndex r n \<and> randomIndex r n < n"
proof -
  from assms have "0 \<le> r * of_int n" by (simp add: unit_draw_def)
  then have lo: "0 \<le> \<lfloor>r * of_int n\<rfloor>" by simp
  from assms have "r * of_int n < 1 * of_int n"
    by (intro mult_strict_right_mono) (simp_all add: unit_draw_def)
  then have "r * of_int n < of_int n" by simp
  then have "\<lfloor>r * of_int n\<rfloor> < n" by (simp add: floor_less_iff)
  with lo show ?thesis by (simp add: randomIndex_def)
qed

text \<open>One attempt, once the row is there.\<close>

lemma placeRandomly_attempt:
  assumes "js_row (board g) (randomIndex r1 (int (length (board g)))) = Some row"
  shows "placeRandomly limit (r1 # r2 # ds) g v =
     (if js_get row (randomIndex r2 (int (length row))) = Num 0
      then Some (Returned,
                 g\<lparr>board := (board g)[nat (randomIndex r1 (int (length (board g)))) :=
                          js_set row (randomIndex r2 (int (length row))) (Num v)]\<rparr>, ds)
      else if limit = 0 then Some (Thrown RangeError, g, ds)
      else placeRandomly (limit - 1) ds g v)"
  using assms by (simp add: Let_def)

lemma placeRandomly_outcome:
  "placeRandomly limit ds g v = Some (out, g', rest) \<Longrightarrow>
   out = Returned \<or> out = Thrown TypeError \<or> out = Thrown RangeError"
  by (induction limit ds g v rule: placeRandomly.induct)
     (auto simp: Let_def split: option.splits list.splits if_splits)

lemma placeRandomly_thrown:
  "placeRandomly limit ds g v = Some (Thrown e, g', rest) \<Longrightarrow> g' = g"
  by (induction limit ds g v rule: placeRandomly.induct)
     (auto simp: Let_def split: option.splits list.splits if_splits)

lemma placeRandomly_returned:
  "placeRandomly limit ds g v = Some (Returned, g', rest) \<Longrightarrow>
     \<exists>r c. r < length (board g) \<and> c < length (board g ! r) \<and> board g ! r ! c = Num 0 \<and>
           g' = g\<lparr>board := (board g)[r := (board g ! r)[c := Num v]]\<rparr>"
proof (induction limit ds g v rule: placeRandomly.induct)
  case (1 limit game v)
  then show ?case by simp
next
  case (2 limit r1 ds game v)
  let ?ri = "randomIndex r1 (int (length (board game)))"
  from "2.prems" obtain row where row: "js_row (board game) ?ri = Some row"
    by (auto simp: Let_def split: option.splits)
  from "2.prems" row obtain r2 ds' where ds: "ds = r2 # ds'"
    by (auto simp: Let_def split: list.splits)
  let ?ci = "randomIndex r2 (int (length row))"
  note step = placeRandomly_attempt [OF row, of limit r2 ds' v]
  show ?case
  proof (cases "js_get row ?ci = Num 0")
    case True
    from js_row_Some [OF row] js_get_Num [OF True] "2.prems" step ds True
    show ?thesis
      by (intro exI [of _ "nat ?ri"] exI [of _ "nat ?ci"]) (auto simp: js_set_inside)
  next
    case False
    with "2.prems" step ds have l: "limit \<noteq> 0"
      and "placeRandomly (limit - 1) ds' game v = Some (Returned, g', rest)"
      by (auto split: if_splits)
    with "2.IH" [OF refl row ds refl False l] show ?thesis by simp
  qed
qed

lemma placeRandomly_no_TypeError:
  "list_all unit_draw ds \<Longrightarrow> board g \<noteq> [] \<Longrightarrow>
   placeRandomly limit ds g v \<noteq> Some (Thrown TypeError, g', rest)"
proof (induction limit ds g v rule: placeRandomly.induct)
  case (1 limit game v)
  then show ?case by simp
next
  case (2 limit r1 ds game v)
  let ?ri = "randomIndex r1 (int (length (board game)))"
  from "2.prems" have "0 \<le> ?ri \<and> ?ri < int (length (board game))"
    by (intro randomIndex_range) simp_all
  then have row: "js_row (board game) ?ri = Some (board game ! nat ?ri)"
    by (simp add: js_row_def)
  show ?case
  proof (cases ds)
    case Nil
    with row show ?thesis by (simp add: Let_def)
  next
    case (Cons r2 ds')
    let ?ci = "randomIndex r2 (int (length (board game ! nat ?ri)))"
    note step = placeRandomly_attempt [OF row, of limit r2 ds' v]
    show ?thesis
    proof (cases "js_get (board game ! nat ?ri) ?ci = Num 0 \<or> limit = 0")
      case True
      with step Cons show ?thesis by auto
    next
      case False
      from "2.prems" Cons have "list_all unit_draw ds'" by simp
      from "2.IH" [OF refl row Cons refl _ _ this "2.prems"(2)] step Cons False
      show ?thesis by simp
    qed
  qed
qed

section \<open>Failure leaves the game as it was\<close>

text \<open>
  Claim C4. For every game and direction, when \<open>advance\<close> throws \<open>Would hit wall\<close> or
  \<open>Would hit tail\<close>, the game after the call equals the game before it: every cell of the
  board and the length are unchanged.
\<close>

theorem advance_failure_atomic:
  "advance limit ds g d = Some (Thrown WouldHitWall, g') \<or> advance limit ds g d = Some (Thrown WouldHitTail, g')
   \<Longrightarrow> board g' = board g \<and> glength g' = glength g \<and> g' = g"
proof (cases "board g = []")
  case True
  assume "advance limit ds g d = Some (Thrown WouldHitWall, g') \<or> advance limit ds g d = Some (Thrown WouldHitTail, g')"
  with advance_empty_board [OF True, of limit ds d] show ?thesis by auto
next
  case False
  assume a: "advance limit ds g d = Some (Thrown WouldHitWall, g') \<or> advance limit ds g d = Some (Thrown WouldHitTail, g')"
  from newHead_column [OF False, of d] obtain r c where nh: "newHead d (findHead g) = (r, Some c)"
    by blast
  have "g' = g"
  proof (cases "in_bounds (board g) (r, c) \<and> \<not> positive (cell_at (board g) r c) \<and> cell_at (board g) r c = Num (- 1)")
    case True
    with a advance_cases [OF nh, of limit ds]
    obtain out rest where "placeRandomly limit ds (grown g r c) (- 1) = Some (out, g', rest)"
      and "out = Thrown WouldHitWall \<or> out = Thrown WouldHitTail"
      by (auto split: if_splits)
    with placeRandomly_outcome [of limit ds "grown g r c" "- 1" out g' rest] show ?thesis by auto
  next
    case False
    with a advance_cases [OF nh, of limit ds] show ?thesis by (auto split: if_splits)
  qed
  then show ?thesis by simp
qed

theorem advance_failure_atomic_witness:
  "advance 7800 [] \<lparr>board = [[Num 2, Num 1, Num 0]], glength = 2\<rparr> East
     = Some (Thrown WouldHitTail, \<lparr>board = [[Num 2, Num 1, Num 0]], glength = 2\<rparr>)
   \<and> board \<lparr>board = [[Num 2, Num 1, Num 0]], glength = 2\<rparr> = [[Num 2, Num 1, Num 0]]"
proof -
  have h: "advance 7800 [] \<lparr>board = [[Num 2, Num 1, Num 0]], glength = 2\<rparr> East
     = Some (Thrown WouldHitTail, \<lparr>board = [[Num 2, Num 1, Num 0]], glength = 2\<rparr>)"
    by code_simp
  from advance_failure_atomic [OF disjI2, OF h] h show ?thesis by simp
qed

section \<open>Collisions\<close>

lemma placeRandomly_length:
  "placeRandomly limit ds g v = Some (out, g', rest) \<Longrightarrow> glength g' = glength g"
proof (cases out)
  case Returned
  assume "placeRandomly limit ds g v = Some (out, g', rest)"
  with Returned placeRandomly_returned [of limit ds g v g' rest] show ?thesis by auto
next
  case (Thrown e)
  assume "placeRandomly limit ds g v = Some (out, g', rest)"
  with Thrown placeRandomly_thrown [of limit ds g v e g' rest] show ?thesis by simp
qed

lemma grown_board_nonempty: "board g \<noteq> [] \<Longrightarrow> board (grown g r c) \<noteq> []"
  by (simp add: grown_def)

lemma advance_growth:
  assumes "newHead d (findHead g) = (r, Some c)"
    and "in_bounds (board g) (r, c)" and "cell_at (board g) r c = Num (- 1)"
  shows "advance limit ds g d = Some (out, g')
     \<longleftrightarrow> (\<exists>rest. placeRandomly limit ds (grown g r c) (- 1) = Some (out, g', rest))"
proof -
  from advance_cases [OF assms(1), of limit ds] assms(2,3)
  have "advance limit ds g d = map_option (\<lambda>(out, g', rest). (out, g')) (placeRandomly limit ds (grown g r c) (- 1))"
    by simp
  then show ?thesis
    by (cases "placeRandomly limit ds (grown g r c) (- 1)") auto
qed

lemma advance_move:
  assumes "newHead d (findHead g) = (r, Some c)"
    and "in_bounds (board g) (r, c)" and "\<not> positive (cell_at (board g) r c)"
    and "cell_at (board g) r c \<noteq> Num (- 1)"
  shows "advance limit ds g d = Some (Returned, moved g r c)"
  using advance_cases [OF assms(1), of limit ds] assms(2,3,4) by simp

lemma advance_growth_no_TypeError:
  assumes nh: "newHead d (findHead g) = (r, Some c)"
    and ib: "in_bounds (board g) (r, c)" and tg: "cell_at (board g) r c = Num (- 1)"
    and ud: "list_all unit_draw ds"
  shows "advance limit ds g d \<noteq> Some (Thrown TypeError, g')"
proof
  assume a: "advance limit ds g d = Some (Thrown TypeError, g')"
  from ib have "board g \<noteq> []" by (auto simp: in_bounds_def)
  then have ne: "board (grown g r c) \<noteq> []" by (rule grown_board_nonempty)
  from a advance_growth [OF nh ib tg]
  obtain rest where "placeRandomly limit ds (grown g r c) (- 1) = Some (Thrown TypeError, g', rest)"
    by blast
  with placeRandomly_no_TypeError [OF ud ne] show False by blast
qed

text \<open>
  The two collisions. For every game with a unique head cell and every direction,
  \<open>advance\<close> throws \<open>Would hit wall\<close> exactly when the candidate position is outside the
  board, and \<open>Would hit tail\<close> exactly when the candidate position is inside the board and
  its cell holds a value greater than 0 (a cell holding 1 included); so a candidate
  outside the board is never reported as a tail collision. With draws in \<open>[0, 1)\<close> the
  only other throw is the \<open>RangeError\<close> of \<open>placeRandomly\<close> on a growth step.
\<close>

lemma advance_wall_tail_iff:
  assumes "unique_head g p"
  shows "((\<exists>g'. advance limit ds g d = Some (Thrown WouldHitWall, g'))
            \<longleftrightarrow> \<not> in_bounds (board g) (candidate d p))
       \<and> ((\<exists>g'. advance limit ds g d = Some (Thrown WouldHitTail, g'))
            \<longleftrightarrow> in_bounds (board g) (candidate d p)
                \<and> positive (cell_at (board g) (fst (candidate d p)) (snd (candidate d p))))
       \<and> (list_all unit_draw ds \<longrightarrow>
            (\<forall>e g'. advance limit ds g d = Some (Thrown e, g') \<longrightarrow>
               e = WouldHitWall \<or> e = WouldHitTail
               \<or> (e = RangeError \<and> in_bounds (board g) (candidate d p)
                    \<and> cell_at (board g) (fst (candidate d p)) (snd (candidate d p)) = Num (- 1))))"
proof -
  obtain r c where rc: "candidate d p = (r, c)" by (cases "candidate d p")
  with newHead_unique [OF assms, of d] have nh: "newHead d (findHead g) = (r, Some c)" by simp
  note ac = advance_cases [OF nh, of limit ds]
  have grow: "advance limit ds g d \<noteq> Some (Thrown WouldHitWall, g') \<and> advance limit ds g d \<noteq> Some (Thrown WouldHitTail, g')"
    if "in_bounds (board g) (r, c)" "\<not> positive (cell_at (board g) r c)" for g'
  proof (cases "cell_at (board g) r c = Num (- 1)")
    case True
    show ?thesis
    proof (intro conjI notI)
      assume "advance limit ds g d = Some (Thrown WouldHitWall, g')"
      with advance_growth [OF nh that(1) True]
      obtain rest where "placeRandomly limit ds (grown g r c) (- 1) = Some (Thrown WouldHitWall, g', rest)"
        by blast
      from placeRandomly_outcome [OF this] show False by simp
    next
      assume "advance limit ds g d = Some (Thrown WouldHitTail, g')"
      with advance_growth [OF nh that(1) True]
      obtain rest where "placeRandomly limit ds (grown g r c) (- 1) = Some (Thrown WouldHitTail, g', rest)"
        by blast
      from placeRandomly_outcome [OF this] show False by simp
    qed
  next
    case False
    with ac that show ?thesis by simp
  qed
  have wall: "(\<exists>g'. advance limit ds g d = Some (Thrown WouldHitWall, g')) \<longleftrightarrow> \<not> in_bounds (board g) (r, c)"
  proof (cases "in_bounds (board g) (r, c)")
    case False
    with ac show ?thesis by simp
  next
    case ib: True
    show ?thesis
    proof (cases "positive (cell_at (board g) r c)")
      case True
      with ac ib show ?thesis by simp
    next
      case False
      with grow ib show ?thesis by blast
    qed
  qed
  have tail: "(\<exists>g'. advance limit ds g d = Some (Thrown WouldHitTail, g'))
     \<longleftrightarrow> in_bounds (board g) (r, c) \<and> positive (cell_at (board g) r c)"
  proof (cases "in_bounds (board g) (r, c)")
    case False
    with ac show ?thesis by simp
  next
    case ib: True
    show ?thesis
    proof (cases "positive (cell_at (board g) r c)")
      case True
      with ac ib show ?thesis by simp
    next
      case False
      with grow ib show ?thesis by blast
    qed
  qed
  have any: "e = WouldHitWall \<or> e = WouldHitTail
               \<or> (e = RangeError \<and> in_bounds (board g) (r, c) \<and> cell_at (board g) r c = Num (- 1))"
    if ud: "list_all unit_draw ds" and th: "advance limit ds g d = Some (Thrown e, g')" for e g'
  proof (cases "in_bounds (board g) (r, c) \<and> \<not> positive (cell_at (board g) r c)")
    case False
    with ac th show ?thesis by (auto split: if_splits)
  next
    case True
    show ?thesis
    proof (cases "cell_at (board g) r c = Num (- 1)")
      case tg: True
      from True have ib: "in_bounds (board g) (r, c)" by simp
      from th advance_growth [OF nh ib tg] obtain rest where
        pl: "placeRandomly limit ds (grown g r c) (- 1) = Some (Thrown e, g', rest)" by blast
      from placeRandomly_outcome [OF pl] advance_growth_no_TypeError [OF nh ib tg ud, of limit g'] th
      have "e = RangeError" by auto
      with ib tg show ?thesis by simp
    next
      case False
      with ac True th show ?thesis by simp
    qed
  qed
  from wall tail any rc show ?thesis by auto
qed

text \<open>
  On a board without an empty cell every attempt of \<open>placeRandomly\<close> misses, so the
  self-calls use up the stack and the call throws \<open>RangeError\<close>, whatever the limit.
\<close>

lemma no_empty_cell:
  "holding 0 b = 0 \<Longrightarrow> r < length b \<Longrightarrow> c < length (b ! r) \<Longrightarrow> b ! r ! c \<noteq> Num 0"
proof
  assume h: "holding 0 b = 0" and r: "r < length b" and c: "c < length (b ! r)"
    and z: "b ! r ! c = Num 0"
  from c z have "Num 0 \<in> set (b ! r)" by (metis nth_mem)
  from count_list_concat_pos [OF r this] h show False by (simp add: holding_def)
qed

lemma placeRandomly_exhausts:
  "holding 0 (board g) = 0 \<Longrightarrow> board g \<noteq> [] \<Longrightarrow> list_all unit_draw ds \<Longrightarrow>
   2 * (limit + 1) \<le> length ds \<Longrightarrow>
   \<exists>rest. placeRandomly limit ds g v = Some (Thrown RangeError, g, rest)"
proof (induction limit ds g v rule: placeRandomly.induct)
  case (1 limit game v)
  then show ?case by simp
next
  case (2 limit r1 ds game v)
  let ?ri = "randomIndex r1 (int (length (board game)))"
  from "2.prems" have ri: "0 \<le> ?ri \<and> ?ri < int (length (board game))"
    by (intro randomIndex_range) simp_all
  then have row: "js_row (board game) ?ri = Some (board game ! nat ?ri)"
    by (simp add: js_row_def)
  from "2.prems"(4) obtain r2 ds' where ds: "ds = r2 # ds'" by (cases ds) auto
  let ?ci = "randomIndex r2 (int (length (board game ! nat ?ri)))"
  have miss: "js_get (board game ! nat ?ri) ?ci \<noteq> Num 0"
  proof
    assume "js_get (board game ! nat ?ri) ?ci = Num 0"
    from js_get_Num [OF this] ri have "nat ?ri < length (board game)"
      "nat ?ci < length (board game ! nat ?ri)" "board game ! nat ?ri ! nat ?ci = Num 0"
      by (simp_all add: nat_less_iff)
    with no_empty_cell [OF "2.prems"(1) this(1,2)] show False by simp
  qed
  note step = placeRandomly_attempt [OF row, of limit r2 ds' v]
  show ?case
  proof (cases "limit = 0")
    case True
    with step miss ds show ?thesis by simp
  next
    case False
    from "2.prems" ds False have "list_all unit_draw ds'" "2 * (limit - 1 + 1) \<le> length ds'"
      by simp_all
    from "2.IH" [OF refl row ds refl miss False "2.prems"(1,2) this] step miss ds False
    show ?thesis by simp
  qed
qed

lemma unit_draws_zero: "list_all unit_draw (replicate n 0)"
  by (induction n) (simp_all add: unit_draw_def)

lemma advance_full_board:
  assumes nh: "newHead d (findHead g) = (r, Some c)"
    and ib: "in_bounds (board g) (r, c)" and tg: "cell_at (board g) r c = Num (- 1)"
    and full: "holding 0 (board (grown g r c)) = 0"
    and ud: "list_all unit_draw ds" and len: "2 * (limit + 1) \<le> length ds"
  shows "advance limit ds g d = Some (Thrown RangeError, grown g r c)"
proof -
  from ib have "board g \<noteq> []" by (auto simp: in_bounds_def)
  then have ne: "board (grown g r c) \<noteq> []" by (rule grown_board_nonempty)
  from placeRandomly_exhausts [OF full ne ud len, of "- 1"] obtain rest where
    "placeRandomly limit ds (grown g r c) (- 1) = Some (Thrown RangeError, grown g r c, rest)"
    by blast
  with advance_growth [OF nh ib tg, of limit ds "Thrown RangeError" "grown g r c"]
  show ?thesis by blast
qed

text \<open>
  Claim C3. The claim is that \<open>advance\<close> fails exactly on a wall or a tail collision. On
  the board \<open>[[1, -1]]\<close> with length 1, which \<open>init(2, 1)\<close> produces, and direction East
  the head is unique, the candidate cell is inside the board and holds the target, so
  there is neither a wall nor a tail collision; yet the call throws \<open>RangeError\<close>, after
  the length and the head were written and with no target on the board, here for a stack
  that allows 7800 nested self-calls and draws that are all 0 (the lemma above gives the
  same for every limit and all draws).
\<close>

theorem advance_full_board_RangeError:
  "unique_head \<lparr>board = [[Num 1, Num (- 1)]], glength = 1\<rparr> (0, 0)
   \<and> in_bounds [[Num 1, Num (- 1)]] (candidate East (0, 0))
   \<and> \<not> positive (cell_at [[Num 1, Num (- 1)]] 0 1)
   \<and> advance 7800 (replicate (2 * (7800 + 1)) 0) \<lparr>board = [[Num 1, Num (- 1)]], glength = 1\<rparr> East
       = Some (Thrown RangeError, \<lparr>board = [[Num 1, Num 2]], glength = 2\<rparr>)"
proof -
  let ?g = "\<lparr>board = [[Num 1, Num (- 1)]], glength = 1\<rparr>"
  have h: "unique_head ?g (0, 0)"
    by (simp add: unique_head_def cell_at_def js_row_def js_get_def holding_def)
  from newHead_unique [OF h, of East] have nh: "newHead East (findHead ?g) = (0, Some 1)" by simp
  have ib: "in_bounds (board ?g) (0, 1)" by (simp add: in_bounds_def columns_def)
  have tg: "cell_at (board ?g) 0 1 = Num (- 1)" by (simp add: cell_at_def js_row_def js_get_def)
  have gr: "grown ?g 0 1 = \<lparr>board = [[Num 1, Num 2]], glength = 2\<rparr>"
    by (simp add: grown_def js_set_def)
  have full: "holding 0 (board (grown ?g 0 1)) = 0" by (simp add: gr holding_def)
  have len: "2 * (7800 + 1) \<le> length (replicate (2 * (7800 + 1)) (0::rat))"
    by (simp only: length_replicate order_refl)
  from advance_full_board [OF nh ib tg full unit_draws_zero len]
  have "advance 7800 (replicate (2 * (7800 + 1)) 0) ?g East
       = Some (Thrown RangeError, \<lparr>board = [[Num 1, Num 2]], glength = 2\<rparr>)"
    by (simp only: gr)
  moreover have "\<not> positive (cell_at [[Num 1, Num (- 1)]] 0 1)"
    using tg by simp
  moreover have "in_bounds [[Num 1, Num (- 1)]] (candidate East (0, 0))"
    using ib by simp
  ultimately show ?thesis using h by blast
qed

section \<open>The length only grows\<close>

lemma advance_length:
  assumes "advance limit ds g d = Some (out, g')"
  shows "glength g' = glength g
       \<or> (glength g' = glength g + 1 \<and> candidate_cell g d = Num (- 1))"
proof (cases "board g = []")
  case True
  from advance_empty_board [OF True, of limit ds d] assms show ?thesis by simp
next
  case False
  from newHead_column [OF False, of d] obtain r c where nh: "newHead d (findHead g) = (r, Some c)"
    by blast
  then have cc: "candidate_cell g d = cell_at (board g) r c" by (simp add: candidate_cell_def)
  show ?thesis
  proof (cases "in_bounds (board g) (r, c) \<and> cell_at (board g) r c = Num (- 1)")
    case True
    with advance_growth [OF nh, of limit ds out g'] assms
    obtain rest where "placeRandomly limit ds (grown g r c) (- 1) = Some (out, g', rest)" by blast
    from placeRandomly_length [OF this] True cc show ?thesis by (simp add: grown_def)
  next
    case False
    with advance_cases [OF nh, of limit ds] assms have "g' = g \<or> g' = moved g r c"
      by (auto split: if_splits)
    then show ?thesis by (auto simp: moved_def)
  qed
qed

lemma advance_all_length:
  "advance_all limit calls g = Some g' \<Longrightarrow> glength g \<le> glength g'"
proof (induction calls arbitrary: g)
  case Nil
  then show ?case by simp
next
  case (Cons call calls)
  obtain ds d where call: "call = (ds, d)" by (cases call)
  with Cons.prems obtain out g1 where step: "advance limit ds g d = Some (out, g1)"
    and run: "advance_all limit calls g1 = Some g'"
    by (auto split: option.splits)
  from advance_length [OF step] have "glength g \<le> glength g1" by auto
  with Cons.IH [OF run] show ?case by simp
qed

text \<open>
  Claim C7. The length never decreases: one call of \<open>advance\<close>, whether it returns or
  throws, leaves the length as it was or adds 1 to it, and it adds 1 only when the cell
  the head moves to holds the target; so after any run of calls the length is at least
  what it was before.
\<close>

theorem length_non_decreasing:
  "(advance limit ds g d = Some (out, g') \<longrightarrow>
      glength g \<le> glength g'
      \<and> (glength g' \<noteq> glength g \<longrightarrow>
           glength g' = glength g + 1 \<and> candidate_cell g d = Num (- 1)))
   \<and> (advance_all limit calls g = Some g'' \<longrightarrow> glength g \<le> glength g'')"
proof (intro conjI impI)
  assume a: "advance limit ds g d = Some (out, g')"
  from advance_length [OF a] show "glength g \<le> glength g'" by auto
  assume "glength g' \<noteq> glength g"
  with advance_length [OF a] show "glength g' = glength g + 1" by simp
  from \<open>glength g' \<noteq> glength g\<close> advance_length [OF a] show "candidate_cell g d = Num (- 1)" by simp
next
  assume "advance_all limit calls g = Some g''"
  then show "glength g \<le> glength g''" by (rule advance_all_length)
qed

theorem length_non_decreasing_witness:
  "advance 7800 [0, 2 / 3] \<lparr>board = [[Num 1, Num (- 1), Num 0]], glength = 1\<rparr> East
     = Some (Returned, \<lparr>board = [[Num 1, Num 2, Num (- 1)]], glength = 2\<rparr>)
   \<and> advance_all 7800 [([0, 2 / 3], East), ([], West), ([], North)]
        \<lparr>board = [[Num 1, Num (- 1), Num 0]], glength = 1\<rparr>
     = Some \<lparr>board = [[Num 1, Num 2, Num (- 1)]], glength = 2\<rparr>
   \<and> candidate_cell \<lparr>board = [[Num 1, Num (- 1), Num 0]], glength = 1\<rparr> East = Num (- 1)
   \<and> glength \<lparr>board = [[Num 1, Num (- 1), Num 0]], glength = 1\<rparr>
       \<le> glength \<lparr>board = [[Num 1, Num 2, Num (- 1)]], glength = 2\<rparr>"
proof -
  have s: "advance 7800 [0, 2 / 3] \<lparr>board = [[Num 1, Num (- 1), Num 0]], glength = 1\<rparr> East
     = Some (Returned, \<lparr>board = [[Num 1, Num 2, Num (- 1)]], glength = 2\<rparr>)"
    by code_simp
  have r: "advance_all 7800 [([0, 2 / 3], East), ([], West), ([], North)]
        \<lparr>board = [[Num 1, Num (- 1), Num 0]], glength = 1\<rparr>
     = Some \<lparr>board = [[Num 1, Num 2, Num (- 1)]], glength = 2\<rparr>"
    by code_simp
  from length_non_decreasing [of 7800 "[0, 2 / 3]" "\<lparr>board = [[Num 1, Num (- 1), Num 0]], glength = 1\<rparr>"
      East Returned "\<lparr>board = [[Num 1, Num 2, Num (- 1)]], glength = 2\<rparr>"
      "[([0, 2 / 3], East), ([], West), ([], North)]"
      "\<lparr>board = [[Num 1, Num 2, Num (- 1)]], glength = 2\<rparr>"] s r
  show ?thesis by simp
qed

section \<open>The frame of placeRandomly\<close>

lemma cell_at_update:
  "r < length b \<Longrightarrow> c < length (b ! r) \<Longrightarrow>
   cell_at (b[r := (b ! r)[c := x]]) r' c' =
     (if r' = int r \<and> c' = int c then x else cell_at b r' c')"
  by (auto simp: cell_at_def js_row_def js_get_def nth_list_update)

lemma map_length_update:
  "r < length b \<Longrightarrow> map length (b[r := (b ! r)[c := x]]) = map length b"
  by (simp add: map_update list_update_same_conv)

lemma finds_empty_board: "finds_empty limit ds b \<Longrightarrow> b \<noteq> []"
  by (induction limit ds b rule: finds_empty.induct)
     (auto simp: selected_def js_row_def split: if_splits)

lemma placeRandomly_finds_aux:
  "finds_empty limit ds b \<Longrightarrow> list_all unit_draw ds \<Longrightarrow> board g = b \<Longrightarrow>
   \<exists>g' rest. placeRandomly limit ds g v = Some (Returned, g', rest)"
proof (induction limit ds b rule: finds_empty.induct)
  case (1 limit r1 r2 ds b)
  let ?ri = "randomIndex r1 (int (length (board g)))"
  from "1.prems" have ne: "board g \<noteq> []"
    using finds_empty_board [of limit "r1 # r2 # ds" b] by simp
  with "1.prems" have "0 \<le> ?ri \<and> ?ri < int (length (board g))"
    by (intro randomIndex_range) simp_all
  then have row: "js_row (board g) ?ri = Some (board g ! nat ?ri)"
    by (simp add: js_row_def)
  note step = placeRandomly_attempt [OF row, of limit r2 ds v]
  show ?case
  proof (cases "selected (board g) r1 r2 = Num 0")
    case True
    with row step show ?thesis by (simp add: selected_def)
  next
    case False
    with "1.prems" have l: "limit \<noteq> 0" and "finds_empty (limit - 1) ds b" "list_all unit_draw ds"
      by simp_all
    from "1.IH" [OF this(2,3) "1.prems"(3)] False row step l show ?thesis
      by (simp add: selected_def)
  qed
qed simp_all

lemma placeRandomly_finds:
  "list_all unit_draw ds \<Longrightarrow> finds_empty limit ds (board g) \<Longrightarrow>
   \<exists>g' rest. placeRandomly limit ds g v = Some (Returned, g', rest)"
  by (rule placeRandomly_finds_aux [OF _ _ refl])

text \<open>
  Claim C8. When \<open>placeRandomly(game, value)\<close> returns, exactly one cell has been
  written: it held 0 before and holds the value now; every other cell, the number of rows,
  the length of every row and the length of the snake are as before, so no cell that
  held another value than 0 is overwritten. (Writing the value 0 leaves the written cell
  as it was.) It returns when one of the attempts that the stack allows reads an empty
  cell, which needs the board to have one.
\<close>

theorem placeRandomly_frame:
  "(placeRandomly limit ds g v = Some (Returned, g', rest) \<longrightarrow>
      (\<exists>r c. cell_at (board g) r c = Num 0 \<and> cell_at (board g') r c = Num v
            \<and> (\<forall>r' c'. (r', c') \<noteq> (r, c) \<longrightarrow> cell_at (board g') r' c' = cell_at (board g) r' c'))
      \<and> (\<forall>r c. cell_at (board g) r c \<noteq> Num 0 \<longrightarrow> cell_at (board g') r c = cell_at (board g) r c)
      \<and> map length (board g') = map length (board g)
      \<and> glength g' = glength g)
   \<and> (list_all unit_draw ds \<and> finds_empty limit ds (board g) \<longrightarrow>
        (\<exists>g1 rest1. placeRandomly limit ds g v = Some (Returned, g1, rest1)))"
proof (intro conjI impI)
  assume "placeRandomly limit ds g v = Some (Returned, g', rest)"
  from placeRandomly_returned [OF this] obtain r c where
    r: "r < length (board g)" and c: "c < length (board g ! r)" and z: "board g ! r ! c = Num 0"
    and g': "g' = g\<lparr>board := (board g)[r := (board g ! r)[c := Num v]]\<rparr>" by blast
  from r c z have old: "cell_at (board g) (int r) (int c) = Num 0" by (simp add: cell_at_inside)
  have new: "cell_at (board g') r' c' = (if r' = int r \<and> c' = int c then Num v else cell_at (board g) r' c')"
    for r' c' using g' cell_at_update [OF r c] by simp
  from old new show "\<exists>r c. cell_at (board g) r c = Num 0 \<and> cell_at (board g') r c = Num v
            \<and> (\<forall>r' c'. (r', c') \<noteq> (r, c) \<longrightarrow> cell_at (board g') r' c' = cell_at (board g) r' c')"
    by (intro exI [of _ "int r"] exI [of _ "int c"]) simp
  from old new show "\<forall>r c. cell_at (board g) r c \<noteq> Num 0 \<longrightarrow> cell_at (board g') r c = cell_at (board g) r c"
    by auto
  from g' r show "map length (board g') = map length (board g)" by (simp add: map_length_update)
  from g' show "glength g' = glength g" by simp
next
  assume "list_all unit_draw ds \<and> finds_empty limit ds (board g)"
  then show "\<exists>g1 rest1. placeRandomly limit ds g v = Some (Returned, g1, rest1)"
    by (simp add: placeRandomly_finds)
qed

theorem placeRandomly_frame_witness:
  "placeRandomly 7800 [0, 0, 1 / 2, 2 / 3] \<lparr>board = [[Num 1, Num 0], [Num 0, Num 0]], glength = 1\<rparr> (- 1)
     = Some (Returned, \<lparr>board = [[Num 1, Num 0], [Num 0, Num (- 1)]], glength = 1\<rparr>, [])
   \<and> list_all unit_draw [0, 0, 1 / 2, 2 / 3]
   \<and> finds_empty 7800 [0, 0, 1 / 2, 2 / 3] [[Num 1, Num 0], [Num 0, Num 0]]
   \<and> map length [[Num 1, Num 0], [Num 0, Num (- 1)]] = map length [[Num 1, Num 0], [Num 0, Num 0 :: CellValue]]
   \<and> (\<exists>r c. cell_at [[Num 1, Num 0], [Num 0, Num 0]] r c = Num 0
           \<and> cell_at [[Num 1, Num 0], [Num 0, Num (- 1)]] r c = Num (- 1))"
proof -
  have h: "placeRandomly 7800 [0, 0, 1 / 2, 2 / 3] \<lparr>board = [[Num 1, Num 0], [Num 0, Num 0]], glength = 1\<rparr> (- 1)
     = Some (Returned, \<lparr>board = [[Num 1, Num 0], [Num 0, Num (- 1)]], glength = 1\<rparr>, [])"
    by code_simp
  have u: "list_all unit_draw [0, 0, 1 / 2, 2 / 3]"
    by (simp add: unit_draw_def)
  have f: "finds_empty 7800 [0, 0, 1 / 2, 2 / 3] [[Num 1, Num 0], [Num 0, Num 0]]"
    by code_simp
  from placeRandomly_frame [of 7800 "[0, 0, 1 / 2, 2 / 3]"
      "\<lparr>board = [[Num 1, Num 0], [Num 0, Num 0]], glength = 1\<rparr>" "- 1"
      "\<lparr>board = [[Num 1, Num 0], [Num 0, Num (- 1)]], glength = 1\<rparr>" "[]"] h u f
  show ?thesis by auto
qed

section \<open>The random source matters on a growth step only\<close>






section \<open>Counting cells\<close>

lemma holding_filter: "holding v b = length (filter (\<lambda>z. z = Num v) (concat b))"
proof -
  have "count_list xs x = length (filter (\<lambda>z. z = x) xs)" for xs :: "CellValue list" and x
    by (induction xs) auto
  then show ?thesis by (simp add: holding_def)
qed

lemma filter_update_count:
  "n < length row \<Longrightarrow>
   length (filter P (row[n := x])) + (if P (row ! n) then 1 else 0)
     = length (filter P row) + (if P x then 1 else 0)"
proof (induction row arbitrary: n)
  case Nil
  then show ?case by simp
next
  case (Cons y ys)
  then show ?case by (cases n) auto
qed

lemma filter_js_set_count:
  assumes "\<not> P Undefined" "0 \<le> c"
  shows "length (filter P (js_set row c x)) + (if P (js_get row c) then 1 else 0)
     = length (filter P row) + (if P x then 1 else 0)"
proof (cases "c < int (length row)")
  case True
  with assms have "nat c < length row" by simp
  from filter_update_count [OF this, of P x] True assms show ?thesis
    by (simp add: js_set_def js_get_def)
next
  case False
  with assms show ?thesis by (simp add: js_set_def js_get_def)
qed

lemma filter_concat_update_count:
  "r < length b \<Longrightarrow>
   length (filter P (concat (b[r := row']))) + length (filter P (b ! r))
     = length (filter P (concat b)) + length (filter P row')"
proof (induction b arbitrary: r)
  case Nil
  then show ?case by simp
next
  case (Cons y ys)
  show ?case
  proof (cases r)
    case 0
    then show ?thesis by simp
  next
    case (Suc m)
    with Cons.prems have "m < length ys" by simp
    from Cons.IH [OF this] Suc show ?thesis by simp
  qed
qed

text \<open>Writing one cell of the board: the count of a class of cells.\<close>

lemma count_board_write:
  assumes "\<not> P Undefined" "0 \<le> r" "r < int (length b)" "0 \<le> c"
  shows "length (filter P (concat (b[nat r := js_set (b ! nat r) c x])))
           + (if P (cell_at b r c) then 1 else 0)
       = length (filter P (concat b)) + (if P x then 1 else 0)"
proof -
  from assms have r: "nat r < length b" by simp
  from assms have ca: "cell_at b r c = js_get (b ! nat r) c"
    by (simp add: cell_at_def js_row_def)
  from filter_concat_update_count [OF r, of P "js_set (b ! nat r) c x"]
       filter_js_set_count [of P c "b ! nat r" x] assms(1,4) ca
  show ?thesis by simp
qed

lemma count_ticked:
  "length (filter P (concat (map (map tick) b))) = length (filter (\<lambda>z. P (tick z)) (concat b))"
proof -
  have "concat (map (map tick) b) = map tick (concat b)" by (simp add: map_concat)
  then show ?thesis by (simp add: filter_map comp_def)
qed

lemma tick_eq_Num:
  "tick z = Num k \<longleftrightarrow> (if 0 < k then z = Num (k + 1) else if k = 0 then z = Num 0 \<or> z = Num 1 else z = Num k)"
  by (cases z) auto

lemma positive_tick_count:
  "length (filter (\<lambda>z. positive (tick z)) xs) + length (filter (\<lambda>z. z = Num 1) xs)
     = length (filter positive xs)"
proof (induction xs)
  case Nil
  then show ?case by simp
next
  case (Cons y ys)
  then show ?case by (cases y) auto
qed

lemma cell_at_ticked: "cell_at (map (map tick) b) r c = tick (cell_at b r c)"
  by (auto simp: cell_at_def js_row_def js_get_def)

lemma cell_at_board_write:
  assumes "0 \<le> r" "r < int (length b)" "0 \<le> c" "c < int (length (b ! nat r))"
  shows "cell_at (b[nat r := js_set (b ! nat r) c x]) r' c'
       = (if r' = r \<and> c' = c then x else cell_at b r' c')"
proof -
  from assms have "nat r < length b" "nat c < length (b ! nat r)" by simp_all
  from cell_at_update [OF this, of x r' c'] assms show ?thesis
    by (auto simp: js_set_def)
qed

section \<open>The ordinary move\<close>

lemma moved_board:
  "0 \<le> r \<Longrightarrow> r < int (length (board g)) \<Longrightarrow>
   board (moved g r c) =
     (map (map tick) (board g))[nat r := js_set (map (map tick) (board g) ! nat r) c (Num (glength g))]"
  by (simp add: moved_def)

lemma moved_occupied:
  assumes "0 \<le> r" "r < int (length (board g))" "0 \<le> c" "\<not> positive (cell_at (board g) r c)"
  shows "occupied (board (moved g r c)) + holding 1 (board g)
       = occupied (board g) + (if 0 < glength g then 1 else 0)"
proof -
  let ?t = "map (map tick) (board g)"
  from assms have np: "\<not> positive (cell_at ?t r c)"
    by (cases "cell_at (board g) r c") (simp_all add: cell_at_ticked)
  from assms have len: "r < int (length ?t)" by simp
  from count_board_write [of positive r ?t c "Num (glength g)", OF _ assms(1) len assms(3)] np
  have "occupied (board (moved g r c)) = occupied ?t + (if 0 < glength g then 1 else 0)"
    by (simp add: occupied_def moved_board [OF assms(1,2)])
  moreover have "occupied ?t + holding 1 (board g) = occupied (board g)"
    by (simp add: occupied_def holding_filter count_ticked positive_tick_count)
  ultimately show ?thesis by simp
qed

lemma moved_cell_at:
  assumes "0 \<le> r" "r < int (length (board g))" "0 \<le> c" "c < int (length (board g ! nat r))"
  shows "cell_at (board (moved g r c)) r' c'
       = (if r' = r \<and> c' = c then Num (glength g) else tick (cell_at (board g) r' c'))"
proof -
  let ?t = "map (map tick) (board g)"
  from assms have "r < int (length ?t)" "c < int (length (?t ! nat r))" by simp_all
  from cell_at_board_write [OF assms(1) this(1) assms(3) this(2), of "Num (glength g)" r' c']
  show ?thesis by (simp add: moved_board [OF assms(1,2)] cell_at_ticked)
qed

lemma moved_shape:
  assumes "0 \<le> r" "r < int (length (board g))" "0 \<le> c" "c < int (length (board g ! nat r))"
  shows "map length (board (moved g r c)) = map length (board g)"
proof -
  from assms have r: "nat r < length (board g)" by simp
  from assms have "js_set (map tick (board g ! nat r)) c (Num (glength g))
      = (map tick (board g ! nat r))[nat c := Num (glength g)]"
    by (simp add: js_set_def)
  with r show ?thesis
    by (simp add: moved_def map_update list_update_same_conv comp_def)
qed

text \<open>
  Claim C1, as amended. For every game with a unique head cell and every direction such
  that the candidate position is inside the board and holds 0, \<open>advance\<close> returns
  and has made an ordinary move: every cell other than the candidate that held a positive
  value holds one less (a 1 becomes 0) and the other cells keep their values, the
  candidate cell holds \<open>game.length\<close>, the length and the shape of the board are
  unchanged; and when the length is at least 1 and exactly one cell held the value 1, the
  number of occupied cells is the same before and after.
\<close>

theorem ordinary_move:
  assumes "unique_head g p"
    and "in_bounds (board g) (candidate d p)"
    and "cell_at (board g) (fst (candidate d p)) (snd (candidate d p)) = Num 0"
  shows "\<exists>g'. advance limit ds g d = Some (Returned, g')
     \<and> glength g' = glength g
     \<and> map length (board g') = map length (board g)
     \<and> cell_at (board g') (fst (candidate d p)) (snd (candidate d p)) = Num (glength g)
     \<and> (\<forall>r c v. (r, c) \<noteq> candidate d p \<longrightarrow> cell_at (board g) r c = Num v \<longrightarrow>
           cell_at (board g') r c = Num (if 0 < v then v - 1 else v))
     \<and> (0 < glength g \<and> holding 1 (board g) = 1 \<longrightarrow>
           occupied (board g') = occupied (board g))"
proof -
  obtain r c where rc: "candidate d p = (r, c)" by (cases "candidate d p")
  with newHead_unique [OF assms(1), of d] have nh: "newHead d (findHead g) = (r, Some c)" by simp
  from assms(2,3) rc have ib: "in_bounds (board g) (r, c)" and z: "cell_at (board g) r c = Num 0"
    by simp_all
  from cell_at_Num [OF z] have rng: "0 \<le> r" "r < int (length (board g))" "0 \<le> c"
    "c < int (length (board g ! nat r))" by simp_all
  from advance_move [OF nh ib, of limit ds] z have adv: "advance limit ds g d = Some (Returned, moved g r c)"
    by simp
  have len: "glength (moved g r c) = glength g" by (simp add: moved_def)
  note cells = moved_cell_at [OF rng]
  have others: "\<forall>r' c' v. (r', c') \<noteq> candidate d p \<longrightarrow> cell_at (board g) r' c' = Num v \<longrightarrow>
           cell_at (board (moved g r c)) r' c' = Num (if 0 < v then v - 1 else v)"
    using cells rc by auto
  from moved_occupied [OF rng(1,2,3)] z
  have occ: "0 < glength g \<and> holding 1 (board g) = 1 \<longrightarrow>
           occupied (board (moved g r c)) = occupied (board g)" by auto
  from adv len moved_shape [OF rng] cells [of r c] others occ rc show ?thesis by simp
qed

theorem ordinary_move_witness:
  "unique_head \<lparr>board = [[Num 0, Num 0, Num 0], [Num 1, Num 2, Num 3]], glength = 3\<rparr> (1, 2)
   \<and> in_bounds [[Num 0, Num 0, Num 0], [Num 1, Num 2, Num 3]] (candidate North (1, 2))
   \<and> holding 1 [[Num 0, Num 0, Num 0], [Num 1, Num 2, Num 3]] = 1
   \<and> (\<exists>g'. advance 7800 [] \<lparr>board = [[Num 0, Num 0, Num 0], [Num 1, Num 2, Num 3]], glength = 3\<rparr> North
             = Some (Returned, g')
          \<and> cell_at (board g') 0 2 = Num 3 \<and> cell_at (board g') 1 0 = Num 0
          \<and> occupied (board g') = 3)"
proof -
  let ?g = "\<lparr>board = [[Num 0, Num 0, Num 0], [Num 1, Num 2, Num 3]], glength = 3\<rparr>"
  have h: "unique_head ?g (1, 2)"
    by (simp add: unique_head_def cell_at_def js_row_def js_get_def holding_def)
  have ib: "in_bounds (board ?g) (candidate North (1, 2))"
    by (simp add: in_bounds_def columns_def)
  have z: "cell_at (board ?g) (fst (candidate North (1, 2))) (snd (candidate North (1, 2))) = Num 0"
    by (simp add: cell_at_def js_row_def js_get_def)
  have one: "holding 1 (board ?g) = 1" by (simp add: holding_def)
  have occ: "occupied (board ?g) = 3" by (simp add: occupied_def)
  have c10: "cell_at (board ?g) 1 0 = Num 1" by (simp add: cell_at_def js_row_def js_get_def)
  from ordinary_move [OF h ib z, of 7800 "[]"] obtain g' where
    g': "advance 7800 [] ?g North = Some (Returned, g')"
      "cell_at (board g') (fst (candidate North (1, 2))) (snd (candidate North (1, 2))) = Num 3"
      "\<forall>r c v. (r, c) \<noteq> candidate North (1, 2) \<longrightarrow> cell_at (board ?g) r c = Num v \<longrightarrow>
           cell_at (board g') r c = Num (if 0 < v then v - 1 else v)"
      "0 < glength ?g \<and> holding 1 (board ?g) = 1 \<longrightarrow> occupied (board g') = occupied (board ?g)"
    by auto
  from g'(3) [rule_format, of 1 0 1] c10 have "cell_at (board g') 1 0 = Num 0" by simp
  with g' one occ h ib show ?thesis by simp
qed

text \<open>
  The claim as it was stated also promised the same number of occupied cells for every
  game with a unique head: here the head is alone on the board with length 3, the move
  leaves its old cell occupied, and the count goes from 1 to 2.
\<close>

theorem ordinary_move_count_counterexample:
  "unique_head \<lparr>board = [[Num 3, Num 0, Num (- 1)]], glength = 3\<rparr> (0, 0)
   \<and> in_bounds [[Num 3, Num 0, Num (- 1)]] (candidate East (0, 0))
   \<and> cell_at [[Num 3, Num 0, Num (- 1)]] 0 1 = Num 0
   \<and> advance 7800 [] \<lparr>board = [[Num 3, Num 0, Num (- 1)]], glength = 3\<rparr> East
        = Some (Returned, \<lparr>board = [[Num 2, Num 3, Num (- 1)]], glength = 3\<rparr>)
   \<and> occupied [[Num 3, Num 0, Num (- 1)]] = 1
   \<and> occupied [[Num 2, Num 3, Num (- 1)]] = 2"
proof -
  have "advance 7800 [] \<lparr>board = [[Num 3, Num 0, Num (- 1)]], glength = 3\<rparr> East
        = Some (Returned, \<lparr>board = [[Num 2, Num 3, Num (- 1)]], glength = 3\<rparr>)"
    by code_simp
  then show ?thesis
    by (simp add: unique_head_def cell_at_def js_row_def js_get_def holding_def in_bounds_def
        columns_def occupied_def)
qed

section \<open>The growth step\<close>

lemma count_cell_update:
  assumes "r < length b" "c < length (b ! r)"
  shows "length (filter P (concat (b[r := (b ! r)[c := x]]))) + (if P (b ! r ! c) then 1 else 0)
       = length (filter P (concat b)) + (if P x then 1 else 0)"
  using filter_concat_update_count [OF assms(1), of P "(b ! r)[c := x]"]
        filter_update_count [OF assms(2), of P x]
  by simp

lemma placeRandomly_holding:
  assumes "placeRandomly limit ds g v = Some (Returned, g', rest)"
  shows "holding k (board g') + (if k = 0 then 1 else 0)
       = holding k (board g) + (if k = v then 1 else 0)"
proof -
  from placeRandomly_returned [OF assms] obtain r c where
    r: "r < length (board g)" and c: "c < length (board g ! r)" and z: "board g ! r ! c = Num 0"
    and g': "g' = g\<lparr>board := (board g)[r := (board g ! r)[c := Num v]]\<rparr>" by blast
  from count_cell_update [OF r c, of "\<lambda>z. z = Num k" "Num v"] z g'
  show ?thesis by (auto simp: holding_filter)
qed

lemma grown_board:
  "board (grown g r c) = (board g)[nat r := js_set (board g ! nat r) c (Num (glength g + 1))]"
  by (simp add: grown_def)

lemma grown_holding:
  assumes "0 \<le> r" "r < int (length (board g))" "0 \<le> c"
  shows "holding k (board (grown g r c)) + (if cell_at (board g) r c = Num k then 1 else 0)
       = holding k (board g) + (if k = glength g + 1 then 1 else 0)"
  using count_board_write [of "\<lambda>z. z = Num k" r "board g" c "Num (glength g + 1)"] assms
  by (auto simp: holding_filter grown_board)

lemma grown_cell_at:
  assumes "0 \<le> r" "r < int (length (board g))" "0 \<le> c" "c < int (length (board g ! nat r))"
  shows "cell_at (board (grown g r c)) r' c'
       = (if r' = r \<and> c' = c then Num (glength g + 1) else cell_at (board g) r' c')"
  using cell_at_board_write [OF assms, of "Num (glength g + 1)" r' c']
  by (simp add: grown_board)

lemma grown_shape:
  assumes "0 \<le> r" "r < int (length (board g))" "0 \<le> c" "c < int (length (board g ! nat r))"
  shows "map length (board (grown g r c)) = map length (board g)"
proof -
  from assms have "js_set (board g ! nat r) c (Num (glength g + 1))
      = (board g ! nat r)[nat c := Num (glength g + 1)]"
    by (simp add: js_set_def)
  with assms show ?thesis
    by (simp add: grown_board map_update list_update_same_conv)
qed

lemma selected_cell_at:
  "selected b r1 r2 = Num x \<Longrightarrow>
   \<exists>i j. 0 \<le> i \<and> i < int (length b) \<and> 0 \<le> j \<and> j < int (length (b ! nat i))
        \<and> i = randomIndex r1 (int (length b)) \<and> j = randomIndex r2 (int (length (b ! nat i)))
        \<and> b ! nat i ! nat j = Num x"
  by (auto simp: selected_def js_row_def js_get_def split: if_splits)

lemma selected_after_write:
  assumes "selected b r1 r2 = Num 0" "r < length b" "c < length (b ! r)" "b ! r ! c \<noteq> Num 0"
  shows "selected (b[r := (b ! r)[c := x]]) r1 r2 = Num 0"
proof -
  from selected_cell_at [OF assms(1)] obtain i j where
    ij: "0 \<le> i" "i < int (length b)" "0 \<le> j" "j < int (length (b ! nat i))"
      "i = randomIndex r1 (int (length b))" "j = randomIndex r2 (int (length (b ! nat i)))"
      "b ! nat i ! nat j = Num 0" by blast
  let ?b = "b[r := (b ! r)[c := x]]"
  have len: "length ?b = length b" by simp
  from ij assms have rowlen: "length (?b ! nat i) = length (b ! nat i)"
    by (cases "nat i = r") (simp_all add: nat_less_iff)
  from ij assms have cell: "?b ! nat i ! nat j = Num 0"
    by (cases "nat i = r"; cases "nat j = c") (auto simp: nth_list_update nat_less_iff)
  from ij len rowlen cell show ?thesis
    by (simp add: selected_def js_row_def js_get_def)
qed

lemma finds_empty_after_write:
  "finds_empty limit ds b \<Longrightarrow> r < length b \<Longrightarrow> c < length (b ! r) \<Longrightarrow> b ! r ! c \<noteq> Num 0 \<Longrightarrow>
   finds_empty limit ds (b[r := (b ! r)[c := x]])"
  by (induction limit ds b rule: finds_empty.induct) (auto simp: selected_after_write)

lemma growth_effect:
  assumes nh: "newHead d (findHead g) = (r, Some c)"
    and ib: "in_bounds (board g) (r, c)" and tg: "cell_at (board g) r c = Num (- 1)"
    and len: "1 \<le> glength g"
    and adv: "advance limit ds g d = Some (Returned, g')"
  shows "glength g' = glength g + 1"
    and "map length (board g') = map length (board g)"
    and "holding (- 1) (board g') = holding (- 1) (board g)"
    and "\<exists>tr tc. cell_at (board g) tr tc = Num 0
           \<and> (\<forall>r' c'. cell_at (board g') r' c' =
                 (if r' = tr \<and> c' = tc then Num (- 1)
                  else if r' = r \<and> c' = c then Num (glength g + 1)
                  else cell_at (board g) r' c'))"
proof -
  from cell_at_Num [OF tg] have rng: "0 \<le> r" "r < int (length (board g))" "0 \<le> c"
    "c < int (length (board g ! nat r))" by simp_all
  from adv advance_growth [OF nh ib tg] obtain rest where
    pl: "placeRandomly limit ds (grown g r c) (- 1) = Some (Returned, g', rest)" by blast
  from placeRandomly_length [OF pl] show "glength g' = glength g + 1" by (simp add: grown_def)
  from placeRandomly_returned [OF pl] obtain r0 c0 where
    r0: "r0 < length (board (grown g r c))" and c0: "c0 < length (board (grown g r c) ! r0)"
    and z: "board (grown g r c) ! r0 ! c0 = Num 0"
    and g': "g' = (grown g r c)\<lparr>board := (board (grown g r c))
                     [r0 := (board (grown g r c) ! r0)[c0 := Num (- 1)]]\<rparr>" by blast
  from g' r0 grown_shape [OF rng] show "map length (board g') = map length (board g)"
    by (simp add: map_length_update)
  from grown_holding [OF rng(1,2,3), of "- 1"] tg len
  have "holding (- 1) (board (grown g r c)) + 1 = holding (- 1) (board g)" by simp
  with placeRandomly_holding [OF pl, of "- 1"]
  show "holding (- 1) (board g') = holding (- 1) (board g)" by simp
  note gc = grown_cell_at [OF rng]
  from r0 c0 z have zc: "cell_at (board (grown g r c)) (int r0) (int c0) = Num 0"
    by (simp add: cell_at_inside)
  with gc [of "int r0" "int c0"] len have old: "cell_at (board g) (int r0) (int c0) = Num 0"
    by (auto split: if_splits)
  have new: "cell_at (board g') r' c' =
                 (if r' = int r0 \<and> c' = int c0 then Num (- 1)
                  else if r' = r \<and> c' = c then Num (glength g + 1)
                  else cell_at (board g) r' c')" for r' c'
  proof -
    from g' have "board g' = (board (grown g r c))
                     [r0 := (board (grown g r c) ! r0)[c0 := Num (- 1)]]" by simp
    then show ?thesis by (simp add: cell_at_update [OF r0 c0] gc)
  qed
  from old new show "\<exists>tr tc. cell_at (board g) tr tc = Num 0
           \<and> (\<forall>r' c'. cell_at (board g') r' c' =
                 (if r' = tr \<and> c' = tc then Num (- 1)
                  else if r' = r \<and> c' = c then Num (glength g + 1)
                  else cell_at (board g) r' c'))"
    by blast
qed

lemma growth_returns:
  assumes nh: "newHead d (findHead g) = (r, Some c)"
    and ib: "in_bounds (board g) (r, c)" and tg: "cell_at (board g) r c = Num (- 1)"
    and ud: "list_all unit_draw ds" and fe: "finds_empty limit ds (board g)"
  shows "\<exists>g'. advance limit ds g d = Some (Returned, g')"
proof -
  from cell_at_Num [OF tg] have rng: "0 \<le> r" "r < int (length (board g))" "0 \<le> c"
    "c < int (length (board g ! nat r))" and v: "board g ! nat r ! nat c = Num (- 1)" by simp_all
  from rng have n: "nat r < length (board g)" "nat c < length (board g ! nat r)" by simp_all
  from rng have gb: "board (grown g r c)
      = (board g)[nat r := (board g ! nat r)[nat c := Num (glength g + 1)]]"
    by (simp add: grown_board js_set_def)
  from finds_empty_after_write [OF fe n] v have "finds_empty limit ds (board (grown g r c))"
    by (simp add: gb)
  from placeRandomly_finds [OF ud this, of "- 1"] obtain g' rest where
    "placeRandomly limit ds (grown g r c) (- 1) = Some (Returned, g', rest)" by blast
  with advance_growth [OF nh ib tg, of limit ds Returned g'] show ?thesis by blast
qed

text \<open>
  Claim C2, as amended. For every game with a unique head cell, a length of at least 1
  and exactly one cell holding -1, and every direction such that the candidate position
  is inside the board and holds -1: when \<open>advance\<close> returns, the length is one more, the
  candidate cell holds the new length, exactly one cell holds -1, that cell held 0 before
  (so it is none of the snake's cells), every cell other than these two is as before (no
  decay: every positive cell keeps its value), and the shape of the board is unchanged.
  With draws in \<open>[0, 1)\<close> it returns when one of the attempts of \<open>placeRandomly\<close> that
  the stack allows reads an empty cell.
\<close>

theorem growth_step:
  assumes "unique_head g p"
    and "in_bounds (board g) (candidate d p)"
    and "cell_at (board g) (fst (candidate d p)) (snd (candidate d p)) = Num (- 1)"
    and "holding (- 1) (board g) = 1"
    and "1 \<le> glength g"
  shows "(\<forall>g'. advance limit ds g d = Some (Returned, g') \<longrightarrow>
            glength g' = glength g + 1
          \<and> cell_at (board g') (fst (candidate d p)) (snd (candidate d p)) = Num (glength g + 1)
          \<and> holding (- 1) (board g') = 1
          \<and> (\<exists>tr tc. cell_at (board g') tr tc = Num (- 1) \<and> cell_at (board g) tr tc = Num 0
                \<and> (\<forall>r c. (r, c) \<noteq> candidate d p \<and> (r, c) \<noteq> (tr, tc) \<longrightarrow>
                       cell_at (board g') r c = cell_at (board g) r c))
          \<and> (\<forall>r c. positive (cell_at (board g) r c) \<longrightarrow>
                 cell_at (board g') r c = cell_at (board g) r c)
          \<and> map length (board g') = map length (board g))
       \<and> (list_all unit_draw ds \<and> finds_empty limit ds (board g) \<longrightarrow>
            (\<exists>g'. advance limit ds g d = Some (Returned, g')))"
proof -
  obtain r c where rc: "candidate d p = (r, c)" by (cases "candidate d p")
  with newHead_unique [OF assms(1), of d] have nh: "newHead d (findHead g) = (r, Some c)" by simp
  from assms(2,3) rc have ib: "in_bounds (board g) (r, c)" and tg: "cell_at (board g) r c = Num (- 1)"
    by simp_all
  have effect: "glength g' = glength g + 1
          \<and> cell_at (board g') r c = Num (glength g + 1)
          \<and> holding (- 1) (board g') = 1
          \<and> (\<exists>tr tc. cell_at (board g') tr tc = Num (- 1) \<and> cell_at (board g) tr tc = Num 0
                \<and> (\<forall>r' c'. (r', c') \<noteq> (r, c) \<and> (r', c') \<noteq> (tr, tc) \<longrightarrow>
                       cell_at (board g') r' c' = cell_at (board g) r' c'))
          \<and> (\<forall>r' c'. positive (cell_at (board g) r' c') \<longrightarrow>
                 cell_at (board g') r' c' = cell_at (board g) r' c')
          \<and> map length (board g') = map length (board g)"
    if adv: "advance limit ds g d = Some (Returned, g')" for g'
  proof -
    note ge = growth_effect [OF nh ib tg assms(5) adv]
    from ge(4) obtain tr tc where old: "cell_at (board g) tr tc = Num 0"
      and new: "\<And>r' c'. cell_at (board g') r' c' =
                 (if r' = tr \<and> c' = tc then Num (- 1)
                  else if r' = r \<and> c' = c then Num (glength g + 1)
                  else cell_at (board g) r' c')" by blast
    from old tg have ne: "\<not> (r = tr \<and> c = tc)" by auto
    from new [of r c] ne have head: "cell_at (board g') r c = Num (glength g + 1)" by simp
    from new [of tr tc] have t: "cell_at (board g') tr tc = Num (- 1)" by simp
    have frame: "\<forall>r' c'. (r', c') \<noteq> (r, c) \<and> (r', c') \<noteq> (tr, tc) \<longrightarrow>
                       cell_at (board g') r' c' = cell_at (board g) r' c'"
      using new by simp
    have keep: "\<forall>r' c'. positive (cell_at (board g) r' c') \<longrightarrow>
                 cell_at (board g') r' c' = cell_at (board g) r' c'"
    proof (intro allI impI)
      fix r' c' assume p: "positive (cell_at (board g) r' c')"
      with old tg have "\<not> (r' = tr \<and> c' = tc)" "\<not> (r' = r \<and> c' = c)" by auto
      with new [of r' c'] show "cell_at (board g') r' c' = cell_at (board g) r' c'" by simp
    qed
    from ge(1) head ge(3) assms(4) t old frame keep ge(2) show ?thesis by auto
  qed
  have returns: "\<exists>g'. advance limit ds g d = Some (Returned, g')"
    if "list_all unit_draw ds \<and> finds_empty limit ds (board g)"
    using growth_returns [OF nh ib tg] that by simp
  from effect returns rc show ?thesis by simp
qed

theorem growth_step_witness:
  "unique_head \<lparr>board = [[Num 1, Num (- 1), Num 0]], glength = 1\<rparr> (0, 0)
   \<and> in_bounds [[Num 1, Num (- 1), Num 0]] (candidate East (0, 0))
   \<and> holding (- 1) [[Num 1, Num (- 1), Num 0]] = 1
   \<and> list_all unit_draw [0, 2 / 3]
   \<and> finds_empty 7800 [0, 2 / 3] [[Num 1, Num (- 1), Num 0]]
   \<and> (\<exists>g'. advance 7800 [0, 2 / 3] \<lparr>board = [[Num 1, Num (- 1), Num 0]], glength = 1\<rparr> East
               = Some (Returned, g')
           \<and> glength g' = 2 \<and> cell_at (board g') 0 1 = Num 2 \<and> holding (- 1) (board g') = 1)"
proof -
  let ?g = "\<lparr>board = [[Num 1, Num (- 1), Num 0]], glength = 1\<rparr>"
  have h: "unique_head ?g (0, 0)"
    by (simp add: unique_head_def cell_at_def js_row_def js_get_def holding_def)
  have ib: "in_bounds (board ?g) (candidate East (0, 0))"
    by (simp add: in_bounds_def columns_def)
  have t: "cell_at (board ?g) (fst (candidate East (0, 0))) (snd (candidate East (0, 0))) = Num (- 1)"
    by (simp add: cell_at_def js_row_def js_get_def)
  have one: "holding (- 1) (board ?g) = 1" by (simp add: holding_def)
  have len: "1 \<le> glength ?g" by simp
  have u: "list_all unit_draw [0, 2 / 3]" by (simp add: unit_draw_def)
  have f: "finds_empty 7800 [0, 2 / 3] (board ?g)" by code_simp
  note a = growth_step [OF h ib t one len, of 7800 "[0, 2 / 3]"]
  from a u f obtain g' where g': "advance 7800 [0, 2 / 3] ?g East = Some (Returned, g')" by blast
  with a have "glength g' = glength ?g + 1"
    "cell_at (board g') (fst (candidate East (0, 0))) (snd (candidate East (0, 0))) = Num (glength ?g + 1)"
    "holding (- 1) (board g') = 1" by blast+
  with g' have ex: "\<exists>g'. advance 7800 [0, 2 / 3] ?g East = Some (Returned, g')
           \<and> glength g' = 2 \<and> cell_at (board g') 0 1 = Num 2 \<and> holding (- 1) (board g') = 1"
    by auto
  with h ib one u f show ?thesis by simp
qed

text \<open>
  The claim as it was stated asked for a unique head only. With two targets on the board
  the step returns and two cells hold -1 afterwards.
\<close>

theorem growth_step_counterexample:
  "unique_head \<lparr>board = [[Num 1, Num (- 1), Num (- 1), Num 0]], glength = 1\<rparr> (0, 0)
   \<and> in_bounds [[Num 1, Num (- 1), Num (- 1), Num 0]] (candidate East (0, 0))
   \<and> cell_at [[Num 1, Num (- 1), Num (- 1), Num 0]] 0 1 = Num (- 1)
   \<and> advance 7800 [0, 3 / 4] \<lparr>board = [[Num 1, Num (- 1), Num (- 1), Num 0]], glength = 1\<rparr> East
        = Some (Returned, \<lparr>board = [[Num 1, Num 2, Num (- 1), Num (- 1)]], glength = 2\<rparr>)
   \<and> holding (- 1) [[Num 1, Num 2, Num (- 1), Num (- 1)]] = 2"
proof -
  have a: "advance 7800 [0, 3 / 4] \<lparr>board = [[Num 1, Num (- 1), Num (- 1), Num 0]], glength = 1\<rparr> East
        = Some (Returned, \<lparr>board = [[Num 1, Num 2, Num (- 1), Num (- 1)]], glength = 2\<rparr>)"
    by code_simp
  then show ?thesis
    by (simp add: unique_head_def cell_at_def js_row_def js_get_def holding_def in_bounds_def
        columns_def)
qed

section \<open>init\<close>

lemma emptyBoard_replicate:
  "emptyBoard width height = replicate (nat height) (replicate (nat width) (Num 0))"
  by (simp add: emptyBoard_def map_replicate_const)

lemma emptyBoard_cell:
  "0 \<le> r \<Longrightarrow> r < height \<Longrightarrow> 0 \<le> c \<Longrightarrow> c < width \<Longrightarrow>
   cell_at (emptyBoard width height) r c = Num 0"
  by (simp add: emptyBoard_replicate cell_at_def js_row_def js_get_def)

lemma emptyBoard_holding: "k \<noteq> 0 \<Longrightarrow> holding k (emptyBoard width height) = 0"
proof -
  assume "k \<noteq> 0"
  have "set (concat (emptyBoard width height)) \<subseteq> {Num 0}"
    by (auto simp: emptyBoard_replicate)
  with \<open>k \<noteq> 0\<close> have "Num k \<notin> set (concat (emptyBoard width height))" by auto
  then show ?thesis by (simp add: holding_def count_list_0_iff)
qed

lemma emptyBoard_shape:
  "map length (emptyBoard width height) = replicate (nat height) (nat width)"
  by (simp add: emptyBoard_replicate)

text \<open>What \<open>init\<close> has done when it returns.\<close>

lemma init_returned:
  assumes "init limit ds width height_arg = Some (Returned, g, rest)"
    and "height = (case height_arg of None \<Rightarrow> width | Some h \<Rightarrow> h)"
  shows "\<exists>r1 c1 r2 c2. r1 < nat height \<and> c1 < nat width \<and> r2 < nat height \<and> c2 < nat width
      \<and> (r1, c1) \<noteq> (r2, c2)
      \<and> (\<forall>r c. cell_at (board g) r c =
            (if r = int r2 \<and> c = int c2 then Num (- 1)
             else if r = int r1 \<and> c = int c1 then Num 1
             else cell_at (emptyBoard width height) r c))"
    and "map length (board g) = replicate (nat height) (nat width)"
    and "glength g = 1"
    and "holding 1 (board g) = 1" and "holding (- 1) (board g) = 1"
proof -
  let ?g0 = "\<lparr>board = emptyBoard width height, glength = 1\<rparr>"
  from assms obtain g1 ds1 where
    p1: "placeRandomly limit ds ?g0 1 = Some (Returned, g1, ds1)" and
    p2: "placeRandomly limit ds1 g1 (- 1) = Some (Returned, g, rest)"
    by (auto simp: init_def Let_def split: option.splits outcome.splits)
  from placeRandomly_returned [OF p1] obtain r1 c1 where
    r1: "r1 < length (board ?g0)" and c1: "c1 < length (board ?g0 ! r1)"
    and g1: "g1 = ?g0\<lparr>board := (board ?g0)[r1 := (board ?g0 ! r1)[c1 := Num 1]]\<rparr>" by blast
  from placeRandomly_returned [OF p2] obtain r2 c2 where
    r2: "r2 < length (board g1)" and c2: "c2 < length (board g1 ! r2)"
    and z2: "board g1 ! r2 ! c2 = Num 0"
    and g: "g = g1\<lparr>board := (board g1)[r2 := (board g1 ! r2)[c2 := Num (- 1)]]\<rparr>" by blast
  from r1 have r1h: "r1 < nat height" by (simp add: emptyBoard_replicate)
  with c1 have c1w: "c1 < nat width" by (simp add: emptyBoard_replicate)
  have sh1: "map length (board g1) = replicate (nat height) (nat width)"
    using g1 r1 by (simp add: map_length_update emptyBoard_shape)
  from r2 have r2h: "r2 < nat height"
    using arg_cong [OF sh1, of length] by simp
  from c2 r2 have c2w: "c2 < nat width"
    using arg_cong [OF sh1, of "\<lambda>xs. xs ! r2"] r2h by (simp add: nth_map [symmetric] del: nth_map)
  have cell1: "cell_at (board g1) r c =
      (if r = int r1 \<and> c = int c1 then Num 1 else cell_at (emptyBoard width height) r c)" for r c
    using g1 cell_at_update [OF r1 c1, of "Num 1" r c] by simp
  have cell2: "cell_at (board g) r c =
      (if r = int r2 \<and> c = int c2 then Num (- 1) else cell_at (board g1) r c)" for r c
    using g cell_at_update [OF r2 c2, of "Num (- 1)" r c] by simp
  from r2 c2 z2 have "cell_at (board g1) (int r2) (int c2) = Num 0" by (simp add: cell_at_inside)
  with cell1 [of "int r2" "int c2"] have ne: "(r1, c1) \<noteq> (r2, c2)" by auto
  from cell1 cell2 have "\<forall>r c. cell_at (board g) r c =
            (if r = int r2 \<and> c = int c2 then Num (- 1)
             else if r = int r1 \<and> c = int c1 then Num 1
             else cell_at (emptyBoard width height) r c)" by simp
  with r1h c1w r2h c2w ne
  show "\<exists>r1 c1 r2 c2. r1 < nat height \<and> c1 < nat width \<and> r2 < nat height \<and> c2 < nat width
      \<and> (r1, c1) \<noteq> (r2, c2)
      \<and> (\<forall>r c. cell_at (board g) r c =
            (if r = int r2 \<and> c = int c2 then Num (- 1)
             else if r = int r1 \<and> c = int c1 then Num 1
             else cell_at (emptyBoard width height) r c))" by blast
  from g r2 sh1 show "map length (board g) = replicate (nat height) (nat width)"
    by (simp add: map_length_update)
  from placeRandomly_length [OF p1] placeRandomly_length [OF p2] show "glength g = 1" by simp
  from placeRandomly_holding [OF p1, of 1] have "holding 1 (board g1) = 1"
    by (simp add: emptyBoard_holding)
  with placeRandomly_holding [OF p2, of 1] show "holding 1 (board g) = 1" by simp
  from placeRandomly_holding [OF p1, of "- 1"] have "holding (- 1) (board g1) = 0"
    by (simp add: emptyBoard_holding)
  with placeRandomly_holding [OF p2, of "- 1"] show "holding (- 1) (board g) = 1" by simp
qed

text \<open>The board after the snake was put on the empty board at row \<open>i\<close>, column \<open>j\<close>.\<close>

lemma snake_board_selected:
  assumes w: "1 \<le> width" and h: "1 \<le> height"
    and i: "0 \<le> i" "i < height" and j: "0 \<le> j" "j < width"
    and b: "b = (emptyBoard width height)[nat i := (emptyBoard width height ! nat i)[nat j := Num 1]]"
    and u: "unit_draw r3" "unit_draw r4"
    and other: "(randomIndex r3 height, randomIndex r4 width) \<noteq> (i, j)"
  shows "selected b r3 r4 = Num 0"
proof -
  let ?i = "randomIndex r3 height" and ?j = "randomIndex r4 width"
  from h have lb: "int (length b) = height" by (simp add: b emptyBoard_replicate)
  from randomIndex_range [OF u(1), of height] h have ri: "0 \<le> ?i" "?i < height" by simp_all
  from randomIndex_range [OF u(2), of width] w have rj: "0 \<le> ?j" "?j < width" by simp_all
  from ri i j have row: "b ! nat ?i =
      (if nat ?i = nat i then (replicate (nat width) (Num 0))[nat j := Num 1]
       else replicate (nat width) (Num 0))"
    by (simp add: b emptyBoard_replicate nth_list_update)
  then have lr: "int (length (b ! nat ?i)) = width" using w by simp
  from ri lb have "selected b r3 r4 = js_get (b ! nat ?i) ?j"
    by (simp add: selected_def js_row_def lr)
  also from rj lr have "\<dots> = b ! nat ?i ! nat ?j" by (simp add: js_get_def)
  also from row rj ri i j other have "\<dots> = Num 0"
    by (auto simp: nth_list_update nat_eq_iff)
  finally show ?thesis .
qed

lemma finds_other_empty:
  assumes "finds_other limit ds width height (i, j)" "list_all unit_draw ds"
    and "1 \<le> width" "1 \<le> height" "0 \<le> i" "i < height" "0 \<le> j" "j < width"
    and "b = (emptyBoard width height)[nat i := (emptyBoard width height ! nat i)[nat j := Num 1]]"
  shows "finds_empty limit ds b"
  using assms
proof (induction limit ds width height "(i, j)" rule: finds_other.induct)
  case (1 limit r3 r4 ds width height)
  show ?case
  proof (cases "(randomIndex r3 height, randomIndex r4 width) \<noteq> (i, j)")
    case True
    from "1.prems" have "unit_draw r3" "unit_draw r4" by simp_all
    from snake_board_selected [OF "1.prems"(3,4,5,6,7,8,9) this True] show ?thesis by simp
  next
    case False
    with "1.prems" have l: "limit \<noteq> 0"
      and "finds_other (limit - 1) ds width height (i, j)" "list_all unit_draw ds" by simp_all
    from "1.hyps" [OF this(2,3) "1.prems"(3,4,5,6,7,8,9)] l show ?thesis by simp
  qed
qed simp_all

lemma init_returns:
  assumes w: "1 \<le> width" and h: "1 \<le> height"
    and hd: "height = (case height_arg of None \<Rightarrow> width | Some h \<Rightarrow> h)"
    and u: "list_all unit_draw ds" and s: "draws_suffice limit ds width height"
  shows "\<exists>g rest. init limit ds width height_arg = Some (Returned, g, rest)"
proof -
  from s obtain r1 r2 ds' where ds: "ds = r1 # r2 # ds'"
    and fo: "finds_other limit ds' width height (randomIndex r1 height, randomIndex r2 width)"
    by (auto simp: draws_suffice_def split: list.splits)
  let ?i = "randomIndex r1 height" and ?j = "randomIndex r2 width"
  let ?b0 = "emptyBoard width height"
  let ?g0 = "\<lparr>board = ?b0, glength = 1\<rparr>"
  let ?b1 = "?b0[nat ?i := (?b0 ! nat ?i)[nat ?j := Num 1]]"
  from u ds have ud: "unit_draw r1" "unit_draw r2" "list_all unit_draw ds'" by simp_all
  from randomIndex_range [OF ud(1), of height] h have ri: "0 \<le> ?i" "?i < height" by simp_all
  from randomIndex_range [OF ud(2), of width] w have rj: "0 \<le> ?j" "?j < width" by simp_all
  from h have lb: "int (length ?b0) = height" by (simp add: emptyBoard_replicate)
  from ri lb have row: "js_row ?b0 ?i = Some (replicate (nat width) (Num 0))"
    by (simp add: js_row_def emptyBoard_replicate)
  from w have lr: "int (length (replicate (nat width) (Num 0 :: CellValue))) = width" by simp
  from rj have hit: "js_get (replicate (nat width) (Num 0)) ?j = Num 0"
    by (simp add: js_get_def)
  from ri rj have b1: "?b0[nat ?i := js_set (replicate (nat width) (Num 0)) ?j (Num 1)] = ?b1"
    by (simp add: js_set_def emptyBoard_replicate)
  have p1: "placeRandomly limit ds ?g0 1 = Some (Returned, ?g0\<lparr>board := ?b1\<rparr>, ds')"
    using row hit b1 w by (simp add: ds Let_def lb)
  from finds_other_empty [OF fo ud(3) w h ri rj refl]
  have "finds_empty limit ds' (board (?g0\<lparr>board := ?b1\<rparr>))" by simp
  from placeRandomly_finds [OF ud(3) this, of "- 1"] obtain g rest where
    "placeRandomly limit ds' (?g0\<lparr>board := ?b1\<rparr>) (- 1) = Some (Returned, g, rest)" by blast
  with p1 hd show ?thesis by (auto simp: init_def Let_def)
qed

lemma placeRandomly_shape:
  assumes "placeRandomly limit ds g v = Some (out, g', rest)"
  shows "map length (board g') = map length (board g)"
proof (cases out)
  case Returned
  with assms placeRandomly_returned [of limit ds g v g' rest] obtain r c where
    "r < length (board g)" "g' = g\<lparr>board := (board g)[r := (board g ! r)[c := Num v]]\<rparr>"
    by blast
  then show ?thesis by (simp add: map_length_update)
next
  case (Thrown e)
  with assms placeRandomly_thrown [of limit ds g v e g' rest] show ?thesis by simp
qed

text \<open>The game that \<open>init\<close> leaves behind when a placement throws.\<close>

lemma init_thrown:
  assumes "init limit ds width height_arg = Some (Thrown e, g, rest)"
    and "height = (case height_arg of None \<Rightarrow> width | Some h \<Rightarrow> h)"
  shows "map length (board g) = replicate (nat height) (nat width) \<and> glength g = 1"
proof -
  let ?g0 = "\<lparr>board = emptyBoard width height, glength = 1\<rparr>"
  from assms obtain out1 g1 ds1 where p1: "placeRandomly limit ds ?g0 1 = Some (out1, g1, ds1)"
    and rest: "(out1 = Thrown e \<and> g = g1)
             \<or> (out1 = Returned \<and> placeRandomly limit ds1 g1 (- 1) = Some (Thrown e, g, rest))"
    by (auto simp: init_def Let_def split: option.splits outcome.splits)
  from placeRandomly_shape [OF p1] placeRandomly_length [OF p1]
  have one: "map length (board g1) = replicate (nat height) (nat width) \<and> glength g1 = 1"
    by (simp add: emptyBoard_shape)
  from rest show ?thesis
  proof
    assume "out1 = Thrown e \<and> g = g1"
    with one show ?thesis by simp
  next
    assume "out1 = Returned \<and> placeRandomly limit ds1 g1 (- 1) = Some (Thrown e, g, rest)"
    then have "g = g1" using placeRandomly_thrown by blast
    with one show ?thesis by simp
  qed
qed

lemma half_draws_suffice:
  assumes "1 \<le> width" "1 \<le> height" "2 \<le> width * height"
  shows "draws_suffice limit [0, 0, 1 / 2, 1 / 2] width height"
proof -
  have big: "2 \<le> width \<or> 2 \<le> height"
  proof (rule ccontr)
    assume "\<not> (2 \<le> width \<or> 2 \<le> height)"
    with assms(1,2) have "width = 1" "height = 1" by simp_all
    with assms(3) show False by simp
  qed
  have half: "1 \<le> randomIndex (1 / 2) n" if "2 \<le> n" for n
  proof -
    from that have "(1::rat) \<le> 1 / 2 * of_int n" by simp
    then show ?thesis by (simp add: randomIndex_def le_floor_iff)
  qed
  from big half [of width] half [of height]
  have "(randomIndex (1 / 2) height, randomIndex (1 / 2) width) \<noteq> (0, 0)" by auto
  then show ?thesis by (simp add: draws_suffice_def randomIndex_def)
qed

text \<open>
  Claim C6. \<open>init(width, height)\<close>, with \<open>height\<close> defaulting to \<open>width\<close>: when it
  returns, the board has \<open>height\<close> rows of \<open>width\<close> columns each and the length is 1;
  exactly one cell holds 1, exactly one holds -1, these are two different cells and every
  other cell of the board holds 0. When a placement throws instead, the game left behind
  has that board shape (no row and no column for a size below 1) and length 1 as well.
  For sizes of at least 1 it returns on draws in
  \<open>[0, 1)\<close> when one of the attempts that the stack allows for the target draws another
  cell than the snake's, and for every board of at least two cells there are such draws,
  whatever the stack allows.
\<close>

theorem init_places:
  assumes "height = (case height_arg of None \<Rightarrow> width | Some h \<Rightarrow> h)"
  shows "(init limit ds width height_arg = Some (Returned, g, rest) \<longrightarrow>
            int (length (board g)) = height
          \<and> (\<forall>row\<in>set (board g). int (length row) = width)
          \<and> glength g = 1
          \<and> (2 \<le> width * height \<longrightarrow>
                holding 1 (board g) = 1 \<and> holding (- 1) (board g) = 1
              \<and> (\<exists>p q. p \<noteq> q \<and> cell_at (board g) (fst p) (snd p) = Num 1
                    \<and> cell_at (board g) (fst q) (snd q) = Num (- 1)
                    \<and> (\<forall>r c. 0 \<le> r \<and> r < height \<and> 0 \<le> c \<and> c < width
                              \<and> (r, c) \<noteq> p \<and> (r, c) \<noteq> q \<longrightarrow>
                           cell_at (board g) r c = Num 0))))
       \<and> (init limit ds width height_arg = Some (Thrown e, g2, rest2) \<longrightarrow>
            map length (board g2) = replicate (nat height) (nat width) \<and> glength g2 = 1)
       \<and> (1 \<le> width \<and> 1 \<le> height \<and> list_all unit_draw ds \<and> draws_suffice limit ds width height \<longrightarrow>
            (\<exists>g1 rest1. init limit ds width height_arg = Some (Returned, g1, rest1)))
       \<and> (1 \<le> width \<and> 1 \<le> height \<and> 2 \<le> width * height \<longrightarrow>
            (\<exists>g1 rest1. init limit [0, 0, 1 / 2, 1 / 2] width height_arg = Some (Returned, g1, rest1)))"
proof (intro conjI impI)
  assume i: "init limit ds width height_arg = Some (Returned, g, rest)"
  note ir = init_returned [OF i assms]
  from ir(1) obtain r1 c1 r2 c2 where
    rng: "r1 < nat height" "c1 < nat width" "r2 < nat height" "c2 < nat width"
    and ne: "(r1, c1) \<noteq> (r2, c2)"
    and cells: "\<And>r c. cell_at (board g) r c =
            (if r = int r2 \<and> c = int c2 then Num (- 1)
             else if r = int r1 \<and> c = int c1 then Num 1
             else cell_at (emptyBoard width height) r c)" by blast
  from rng have pos: "1 \<le> height" "1 \<le> width" by simp_all
  from arg_cong [OF ir(2), of length] pos show "int (length (board g)) = height" by simp
  show "\<forall>row\<in>set (board g). int (length row) = width"
  proof
    fix row assume "row \<in> set (board g)"
    then have "length row \<in> set (map length (board g))" by simp
    with ir(2) pos show "int (length row) = width" by simp
  qed
  from ir(3) show "glength g = 1" .
  from ir(4) show "holding 1 (board g) = 1" .
  from ir(5) show "holding (- 1) (board g) = 1" .
  let ?p = "(int r1, int c1)" and ?q = "(int r2, int c2)"
  from ne have "?p \<noteq> ?q" by simp
  moreover from cells [of "int r1" "int c1"] ne
  have "cell_at (board g) (fst ?p) (snd ?p) = Num 1" by auto
  moreover from cells [of "int r2" "int c2"]
  have "cell_at (board g) (fst ?q) (snd ?q) = Num (- 1)" by simp
  moreover have "\<forall>r c. 0 \<le> r \<and> r < height \<and> 0 \<le> c \<and> c < width
                              \<and> (r, c) \<noteq> ?p \<and> (r, c) \<noteq> ?q \<longrightarrow>
                           cell_at (board g) r c = Num 0"
    using cells by (auto simp: emptyBoard_cell)
  ultimately show "\<exists>p q. p \<noteq> q \<and> cell_at (board g) (fst p) (snd p) = Num 1
                    \<and> cell_at (board g) (fst q) (snd q) = Num (- 1)
                    \<and> (\<forall>r c. 0 \<le> r \<and> r < height \<and> 0 \<le> c \<and> c < width
                              \<and> (r, c) \<noteq> p \<and> (r, c) \<noteq> q \<longrightarrow>
                           cell_at (board g) r c = Num 0)" by blast
next
  assume "init limit ds width height_arg = Some (Thrown e, g2, rest2)"
  from init_thrown [OF this assms]
  show "map length (board g2) = replicate (nat height) (nat width)" "glength g2 = 1" by simp_all
next
  assume "1 \<le> width \<and> 1 \<le> height \<and> list_all unit_draw ds \<and> draws_suffice limit ds width height"
  then show "\<exists>g1 rest1. init limit ds width height_arg = Some (Returned, g1, rest1)"
    using init_returns [OF _ _ assms] by blast
next
  assume a: "1 \<le> width \<and> 1 \<le> height \<and> 2 \<le> width * height"
  then have "draws_suffice limit [0, 0, 1 / 2, 1 / 2] width height" by (simp add: half_draws_suffice)
  moreover have "list_all unit_draw [0, 0, 1 / 2, 1 / 2]" by (simp add: unit_draw_def)
  ultimately show "\<exists>g1 rest1. init limit [0, 0, 1 / 2, 1 / 2] width height_arg = Some (Returned, g1, rest1)"
    using init_returns [OF _ _ assms] a by blast
qed

theorem init_places_witness:
  "(2::int) = (case (None :: int option) of None \<Rightarrow> 2 | Some h \<Rightarrow> h)
   \<and> (2::int) \<le> 2 * 2
   \<and> list_all unit_draw [1 / 2, 1 / 2, 1 / 2, 1 / 2, 0, 0]
   \<and> draws_suffice 7800 [1 / 2, 1 / 2, 1 / 2, 1 / 2, 0, 0] 2 2
   \<and> init 7800 [1 / 2, 1 / 2, 1 / 2, 1 / 2, 0, 0] 2 None
        = Some (Returned, \<lparr>board = [[Num (- 1), Num 0], [Num 0, Num 1]], glength = 1\<rparr>, [])
   \<and> holding 1 [[Num (- 1), Num 0], [Num 0, Num 1]] = 1
   \<and> holding (- 1) [[Num (- 1), Num 0], [Num 0, Num 1]] = 1
   \<and> (\<exists>g1 rest1. init 7800 [0, 0, 1 / 2, 1 / 2] 2 None = Some (Returned, g1, rest1))
   \<and> init 7800 [1 / 2] 0 None = Some (Thrown TypeError, \<lparr>board = [], glength = 1\<rparr>, [])
   \<and> map length ([] :: GameBoard) = replicate (nat 0) (nat 0)"
proof -
  have h: "(2::int) = (case (None :: int option) of None \<Rightarrow> 2 | Some h \<Rightarrow> h)" by simp
  have u: "list_all unit_draw [1 / 2, 1 / 2, 1 / 2, 1 / 2, 0, 0]" by (simp add: unit_draw_def)
  have s: "draws_suffice 7800 [1 / 2, 1 / 2, 1 / 2, 1 / 2, 0, 0] 2 2" by code_simp
  have i: "init 7800 [1 / 2, 1 / 2, 1 / 2, 1 / 2, 0, 0] 2 None
        = Some (Returned, \<lparr>board = [[Num (- 1), Num 0], [Num 0, Num 1]], glength = 1\<rparr>, [])"
    by code_simp
  have h0: "(0::int) = (case (None :: int option) of None \<Rightarrow> 0 | Some h \<Rightarrow> h)" by simp
  have t: "init 7800 [1 / 2] 0 None = Some (Thrown TypeError, \<lparr>board = [], glength = 1\<rparr>, [])"
    by code_simp
  from init_places [OF h0, of 7800 "[1 / 2]" _ _ TypeError "\<lparr>board = [], glength = 1\<rparr>" "[]"] t
  have sh: "map length ([] :: GameBoard) = replicate (nat 0) (nat 0)" by simp
  from init_places [OF h, of 7800 "[1 / 2, 1 / 2, 1 / 2, 1 / 2, 0, 0]"
      "\<lparr>board = [[Num (- 1), Num 0], [Num 0, Num 1]], glength = 1\<rparr>" "[]"] u s i t sh
  show ?thesis by simp
qed

section \<open>Head and target stay unique\<close>

lemma moved_holding:
  assumes "0 \<le> r" "r < int (length (board g))" "0 \<le> c"
    and "\<not> positive (cell_at (board g) r c)" "cell_at (board g) r c \<noteq> Num (- 1)"
    and "1 \<le> k \<or> k = - 1"
  shows "holding k (board (moved g r c))
       = holding (if 1 \<le> k then k + 1 else k) (board g) + (if k = glength g then 1 else 0)"
proof -
  let ?t = "map (map tick) (board g)"
  let ?P = "\<lambda>z. z = Num k"
  from assms(2) have len: "r < int (length ?t)" by simp
  from assms(4,5,6) have old: "cell_at ?t r c \<noteq> Num k"
    by (cases "cell_at (board g) r c") (auto simp: cell_at_ticked)
  from count_board_write [of ?P r ?t c "Num (glength g)", OF _ assms(1) len assms(3)] old
  have "holding k (board (moved g r c)) = holding k ?t + (if k = glength g then 1 else 0)"
    by (auto simp: holding_filter moved_board [OF assms(1,2)])
  moreover from assms(6) have "(\<lambda>z. tick z = Num k) = (\<lambda>z. z = Num (if 1 \<le> k then k + 1 else k))"
    by (auto simp: tick_eq_Num fun_eq_iff)
  then have "holding k ?t = holding (if 1 \<le> k then k + 1 else k) (board g)"
    by (simp add: holding_filter count_ticked)
  ultimately show ?thesis by simp
qed

lemma snake_ok_moved:
  assumes ok: "snake_ok g" and ib: "in_bounds (board g) (r, c)"
    and np: "\<not> positive (cell_at (board g) r c)" and nt: "cell_at (board g) r c \<noteq> Num (- 1)"
  shows "snake_ok (moved g r c)"
proof -
  from ib have rng: "0 \<le> r" "r < int (length (board g))" "0 \<le> c" by (simp_all add: in_bounds_def)
  note mh = moved_holding [OF rng np nt]
  from ok have len: "1 \<le> glength g"
    and snake: "\<And>k. 1 \<le> k \<Longrightarrow> holding k (board g) = (if k \<le> glength g then 1 else 0)"
    and target: "holding (- 1) (board g) \<le> 1" by (simp_all add: snake_ok_def)
  have "holding k (board (moved g r c)) = (if k \<le> glength g then 1 else 0)" if "1 \<le> k" for k
    using mh [of k] that snake [of "k + 1"] by auto
  moreover from mh [of "- 1"] len target have "holding (- 1) (board (moved g r c)) \<le> 1" by simp
  moreover have "glength (moved g r c) = glength g" by (simp add: moved_def)
  ultimately show ?thesis using len by (simp add: snake_ok_def)
qed

lemma snake_ok_grown:
  assumes ok: "snake_ok g" and ib: "in_bounds (board g) (r, c)"
    and tg: "cell_at (board g) r c = Num (- 1)"
  shows "1 \<le> glength (grown g r c)"
    and "\<And>k. 1 \<le> k \<Longrightarrow> holding k (board (grown g r c)) = (if k \<le> glength g + 1 then 1 else 0)"
    and "holding (- 1) (board (grown g r c)) = 0"
proof -
  from ib have rng: "0 \<le> r" "r < int (length (board g))" "0 \<le> c" by (simp_all add: in_bounds_def)
  note gh = grown_holding [OF rng]
  from ok have len: "1 \<le> glength g"
    and snake: "\<And>k. 1 \<le> k \<Longrightarrow> holding k (board g) = (if k \<le> glength g then 1 else 0)"
    and target: "holding (- 1) (board g) \<le> 1" by (simp_all add: snake_ok_def)
  from len show "1 \<le> glength (grown g r c)" by (simp add: grown_def)
  show "holding k (board (grown g r c)) = (if k \<le> glength g + 1 then 1 else 0)" if "1 \<le> k" for k
    using gh [of k] tg that snake [of k] by auto
  from gh [of "- 1"] tg len target show "holding (- 1) (board (grown g r c)) = 0" by simp
qed

lemma snake_ok_advance:
  assumes ok: "snake_ok g" and adv: "advance limit ds g d = Some (out, g')"
  shows "snake_ok g'"
proof (cases "board g = []")
  case True
  with adv advance_empty_board [OF True, of limit ds d] ok show ?thesis by simp
next
  case False
  from newHead_column [OF False, of d] obtain r c where nh: "newHead d (findHead g) = (r, Some c)"
    by blast
  note ac = advance_cases [OF nh, of limit ds]
  show ?thesis
  proof (cases "in_bounds (board g) (r, c) \<and> \<not> positive (cell_at (board g) r c)")
    case False
    with ac adv ok show ?thesis by (auto split: if_splits)
  next
    case ib: True
    show ?thesis
    proof (cases "cell_at (board g) r c = Num (- 1)")
      case nt: False
      with ac adv ib have "g' = moved g r c" by simp
      with snake_ok_moved [OF ok _ _ nt] ib show ?thesis by simp
    next
      case tg: True
      from ib have ib': "in_bounds (board g) (r, c)" by simp
      note sg = snake_ok_grown [OF ok ib' tg]
      from adv advance_growth [OF nh ib' tg] obtain rest where
        pl: "placeRandomly limit ds (grown g r c) (- 1) = Some (out, g', rest)" by blast
      show ?thesis
      proof (cases out)
        case (Thrown e)
        with pl placeRandomly_thrown [of limit ds "grown g r c" "- 1" e g' rest] have "g' = grown g r c"
          by simp
        with sg show ?thesis by (simp add: snake_ok_def grown_def)
      next
        case Returned
        with pl have pr: "placeRandomly limit ds (grown g r c) (- 1) = Some (Returned, g', rest)" by simp
        note ph = placeRandomly_holding [OF pr]
        from placeRandomly_length [OF pr] have l: "glength g' = glength g + 1"
          by (simp add: grown_def)
        have "holding k (board g') = (if k \<le> glength g' then 1 else 0)" if "1 \<le> k" for k
          using ph [of k] sg(2) [OF that] that l by simp
        moreover from ph [of "- 1"] sg(3) have "holding (- 1) (board g') \<le> 1" by simp
        ultimately show ?thesis using sg(1) l by (simp add: snake_ok_def grown_def)
      qed
    qed
  qed
qed

lemma snake_ok_advance_all:
  "snake_ok g \<Longrightarrow> advance_all limit calls g = Some g' \<Longrightarrow> snake_ok g'"
proof (induction calls arbitrary: g)
  case Nil
  then show ?case by simp
next
  case (Cons call calls)
  obtain ds d where call: "call = (ds, d)" by (cases call)
  with Cons.prems obtain out g1 where step: "advance limit ds g d = Some (out, g1)"
    and run: "advance_all limit calls g1 = Some g'"
    by (auto split: option.splits)
  from Cons.IH [OF snake_ok_advance [OF Cons.prems(1) step] run] show ?case .
qed

lemma snake_ok_init:
  assumes "init limit ds width height_arg = Some (Returned, g, rest)"
  shows "snake_ok g"
proof -
  let ?g0 = "\<lparr>board = emptyBoard width (case height_arg of None \<Rightarrow> width | Some h \<Rightarrow> h), glength = 1\<rparr>"
  from assms obtain g1 ds1 where
    p1: "placeRandomly limit ds ?g0 1 = Some (Returned, g1, ds1)" and
    p2: "placeRandomly limit ds1 g1 (- 1) = Some (Returned, g, rest)"
    by (auto simp: init_def Let_def split: option.splits outcome.splits)
  from placeRandomly_length [OF p1] placeRandomly_length [OF p2] have l: "glength g = 1" by simp
  have "holding k (board g) = (if k \<le> 1 then 1 else 0)" if "1 \<le> k" for k
    using placeRandomly_holding [OF p1, of k] placeRandomly_holding [OF p2, of k] that
    by (auto simp: emptyBoard_holding)
  moreover have "holding (- 1) (board g) \<le> 1"
    using placeRandomly_holding [OF p1, of "- 1"] placeRandomly_holding [OF p2, of "- 1"]
    by (simp add: emptyBoard_holding)
  ultimately show ?thesis using l by (simp add: snake_ok_def)
qed

text \<open>
  Claim C5. Start from a state that \<open>init\<close> produced and make any run of \<open>advance\<close>
  calls, each of which returned or threw (in particular: any run of calls that all
  returned): afterwards exactly one cell holds \<open>game.length\<close>, the head, and at most one
  cell holds -1, the target.
\<close>

theorem head_and_target_unique:
  assumes "init limit ds width height_arg = Some (Returned, g0, rest)"
    and "advance_all limit calls g0 = Some g"
  shows "holding (glength g) (board g) = 1 \<and> holding (- 1) (board g) \<le> 1"
proof -
  from snake_ok_advance_all [OF snake_ok_init [OF assms(1)] assms(2)] have ok: "snake_ok g" .
  then have "1 \<le> glength g" by (simp add: snake_ok_def)
  with ok show ?thesis by (simp add: snake_ok_def)
qed

theorem head_and_target_unique_witness:
  "init 7800 [0, 0, 0, 3 / 4] 3 (Some 1)
     = Some (Returned, \<lparr>board = [[Num 1, Num 0, Num (- 1)]], glength = 1\<rparr>, [])
   \<and> advance_all 7800 [([], East), ([0, 0], East), ([], East), ([], West)]
        \<lparr>board = [[Num 1, Num 0, Num (- 1)]], glength = 1\<rparr>
     = Some \<lparr>board = [[Num (- 1), Num 1, Num 2]], glength = 2\<rparr>
   \<and> holding 2 [[Num (- 1), Num 1, Num 2]] = 1
   \<and> holding (- 1) [[Num (- 1), Num 1, Num 2]] \<le> 1"
proof -
  have i: "init 7800 [0, 0, 0, 3 / 4] 3 (Some 1)
     = Some (Returned, \<lparr>board = [[Num 1, Num 0, Num (- 1)]], glength = 1\<rparr>, [])"
    by code_simp
  have r: "advance_all 7800 [([], East), ([0, 0], East), ([], East), ([], West)]
        \<lparr>board = [[Num 1, Num 0, Num (- 1)]], glength = 1\<rparr>
     = Some \<lparr>board = [[Num (- 1), Num 1, Num 2]], glength = 2\<rparr>"
    by code_simp
  from head_and_target_unique [OF i r] i r show ?thesis by simp
qed

section \<open>Indices stay inside the board\<close>

lemma grid_nonempty: "grid b \<Longrightarrow> b \<noteq> []"
  by (auto simp: grid_def columns_def)

lemma grid_row_length:
  "grid b \<Longrightarrow> 0 \<le> r \<Longrightarrow> r < int (length b) \<Longrightarrow> int (length (b ! nat r)) = columns b"
  by (simp add: grid_def list_all_length)

lemma findColumn_member:
  assumes "Num len \<in> set row"
  shows "0 \<le> findColumn len row \<and> findColumn len row < int (length row)
       \<and> row ! nat (findColumn len row) = Num len"
proof -
  define k where "k = (LEAST k. k < length row \<and> row ! k = Num len)"
  from assms obtain k0 where "k0 < length row \<and> row ! k0 = Num len"
    by (auto simp: in_set_conv_nth)
  then have k: "k < length row \<and> row ! k = Num len" unfolding k_def by (rule LeastI)
  have "\<forall>j<k. row ! j \<noteq> Num len"
  proof (intro allI impI notI)
    fix j assume "j < k" "row ! j = Num len"
    with k have "j < length row \<and> row ! j = Num len" by simp
    then have "k \<le> j" unfolding k_def by (rule Least_le)
    with \<open>j < k\<close> show False by simp
  qed
  with k have "findColumn len row = int k" by (simp add: findColumn_first)
  with k show ?thesis by simp
qed

lemma findHead_inside:
  assumes "0 < holding (glength g) (board g)"
  shows "\<exists>hr hc. findHead g = (hr, Some hc) \<and> 0 \<le> hr \<and> hr < int (length (board g))
           \<and> 0 \<le> hc \<and> hc < int (length (board g ! nat hr))
           \<and> cell_at (board g) hr hc = Num (glength g)"
proof -
  let ?len = "glength g" and ?b = "board g"
  let ?Q = "\<lambda>row. findColumn ?len row \<noteq> - 1"
  let ?G = "\<lambda>row. Some (findColumn ?len row)"
  have "Num ?len \<in> set (concat ?b)"
  proof (rule ccontr)
    assume "Num ?len \<notin> set (concat ?b)"
    then have "count_list (concat ?b) (Num ?len) = 0"
      using count_list_0_iff [of "concat ?b" "Num ?len"] by blast
    with assms show False by (simp add: holding_def)
  qed
  then obtain row where "row \<in> set ?b" "Num ?len \<in> set row" by auto
  from \<open>row \<in> set ?b\<close> obtain k0 where k0: "k0 < length ?b" "?b ! k0 = row"
    by (auto simp: in_set_conv_nth)
  from findColumn_member [OF \<open>Num ?len \<in> set row\<close>] have "?Q row" by simp
  with k0 have "k0 < length ?b \<and> ?Q (?b ! k0)" by simp
  define k where "k = (LEAST k. k < length ?b \<and> ?Q (?b ! k))"
  from \<open>k0 < length ?b \<and> ?Q (?b ! k0)\<close>
  have k: "k < length ?b \<and> ?Q (?b ! k)" unfolding k_def by (rule LeastI)
  have "\<forall>j<k. \<not> ?Q (?b ! j)"
  proof (intro allI impI notI)
    fix j assume "j < k" "?Q (?b ! j)"
    with k have "j < length ?b \<and> ?Q (?b ! j)" by simp
    then have "k \<le> j" unfolding k_def by (rule Least_le)
    with \<open>j < k\<close> show False by simp
  qed
  with findIndex_loop_state_first [of k ?b ?Q ?G 0 None] k
  have fh: "findHead g = (int k, Some (findColumn ?len (?b ! k)))" by (simp add: findHead_alt)
  from k findColumn_range [of ?len "?b ! k"]
  have c: "0 \<le> findColumn ?len (?b ! k)" "findColumn ?len (?b ! k) < int (length (?b ! k))"
    "?b ! k ! nat (findColumn ?len (?b ! k)) = Num ?len" by auto
  with k have "cell_at ?b (int k) (findColumn ?len (?b ! k)) = Num ?len"
    by (simp add: cell_at_def js_row_def js_get_def)
  with fh k c show ?thesis by simp
qed

lemma advance_shape:
  assumes g: "grid (board g)" and adv: "advance limit ds g d = Some (out, g')"
  shows "map length (board g') = map length (board g)"
proof -
  from newHead_column [OF grid_nonempty [OF g], of d] obtain r c where
    nh: "newHead d (findHead g) = (r, Some c)" by blast
  note ac = advance_cases [OF nh, of limit ds]
  show ?thesis
  proof (cases "in_bounds (board g) (r, c) \<and> \<not> positive (cell_at (board g) r c)")
    case False
    with ac adv show ?thesis by (auto split: if_splits)
  next
    case True
    then have ib: "in_bounds (board g) (r, c)" by simp
    then have rng: "0 \<le> r" "r < int (length (board g))" "0 \<le> c" "c < columns (board g)"
      by (simp_all add: in_bounds_def)
    from grid_row_length [OF g rng(1,2)] rng have rng': "c < int (length (board g ! nat r))" by simp
    show ?thesis
    proof (cases "cell_at (board g) r c = Num (- 1)")
      case False
      with ac adv True have "g' = moved g r c" by simp
      with moved_shape [OF rng(1,2,3) rng'] show ?thesis by simp
    next
      case tg: True
      from adv advance_growth [OF nh ib tg] obtain rest where
        pl: "placeRandomly limit ds (grown g r c) (- 1) = Some (out, g', rest)" by blast
      show ?thesis
      proof (cases out)
        case (Thrown e)
        with pl placeRandomly_thrown [of limit ds "grown g r c" "- 1" e g' rest] have "g' = grown g r c"
          by simp
        with grown_shape [OF rng(1,2,3) rng'] show ?thesis by simp
      next
        case Returned
        with pl placeRandomly_returned [of limit ds "grown g r c" "- 1" g' rest] obtain r0 c0 where
          "r0 < length (board (grown g r c))"
          "g' = (grown g r c)\<lparr>board := (board (grown g r c))
                     [r0 := (board (grown g r c) ! r0)[c0 := Num (- 1)]]\<rparr>" by blast
        with grown_shape [OF rng(1,2,3) rng'] show ?thesis by (simp add: map_length_update)
      qed
    qed
  qed
qed

lemma advance_no_TypeError:
  assumes g: "grid (board g)" and ud: "list_all unit_draw ds"
  shows "advance limit ds g d \<noteq> Some (Thrown TypeError, g')"
proof -
  from newHead_column [OF grid_nonempty [OF g], of d] obtain r c where
    nh: "newHead d (findHead g) = (r, Some c)" by blast
  note ac = advance_cases [OF nh, of limit ds]
  show ?thesis
  proof (cases "in_bounds (board g) (r, c) \<and> cell_at (board g) r c = Num (- 1)")
    case True
    with advance_growth_no_TypeError [OF nh _ _ ud] show ?thesis by simp
  next
    case False
    with ac show ?thesis by (auto split: if_splits)
  qed
qed

lemma chk_get_inside: "k < length xs \<Longrightarrow> chk_get xs (int k) = InBounds (xs ! k)"
  by (simp add: chk_get_def)

lemma chk_set_inside: "k < length xs \<Longrightarrow> chk_set xs (int k) v = InBounds (xs[k := v])"
  by (simp add: chk_set_def)

text \<open>The loops run over the indices of their array, so their reads are inside it.\<close>

lemma findIndex_chk_loop_eq:
  "k \<le> length array \<Longrightarrow>
   findIndex_chk_loop (\<lambda>x i s. InBounds (p x i s)) array [k..<length array] s
     = InBounds (findIndex_loop p (int k) (drop k array) s)"
proof (induction "length array - k" arbitrary: k s)
  case 0
  then show ?case by simp
next
  case (Suc n)
  then have k: "k < length array" by simp
  then have idx: "[k..<length array] = k # [Suc k..<length array]" by (rule upt_conv_Cons)
  from k have dr: "drop k array = array ! k # drop (Suc k) array" by (rule Cons_nth_drop_Suc [symmetric])
  from Suc have ih: "findIndex_chk_loop (\<lambda>x i s. InBounds (p x i s)) array [Suc k..<length array] s'
     = InBounds (findIndex_loop p (int (Suc k)) (drop (Suc k) array) s')" for s'
    by (intro Suc.hyps) simp_all
  obtain found s' where px: "p (array ! k) (int k) s = (found, s')" by (cases "p (array ! k) (int k) s")
  show ?case
    by (cases found) (simp_all add: idx dr chk_get_inside [OF k] px ih add.commute)
qed

lemma findIndex_chk_eq:
  "findIndex_chk array (\<lambda>x i s. InBounds (p x i s)) s = InBounds (findIndex array p s)"
  using findIndex_chk_loop_eq [of 0 array p s] by (simp add: findIndex_chk_def findIndex_def)

lemma findHead_chk_eq: "findHead_chk g = InBounds (findHead g)"
proof -
  have inner: "(case findIndex_chk row (\<lambda>cell j u. InBounds (cell = Num (glength g), u)) () of
            OutOfBounds \<Rightarrow> OutOfBounds
          | InBounds (c, u) \<Rightarrow> InBounds (c \<noteq> - 1, Some c))
     = InBounds (let c = fst (findIndex row (\<lambda>cell j u. (cell = Num (glength g), u)) ())
                 in (c \<noteq> - 1, Some c))" for row
    by (simp add: findIndex_chk_eq Let_def split: prod.splits)
  show ?thesis
    unfolding findHead_chk_def findHead_def inner by (rule findIndex_chk_eq)
qed

lemma tick_row_chk_eq:
  "k \<le> length row \<Longrightarrow>
   tick_row_chk row [k..<length row] = InBounds (take k row @ map tick (drop k row))"
proof (induction "length row - k" arbitrary: k row)
  case 0
  then show ?case by simp
next
  case (Suc n)
  then have k: "k < length row" by simp
  then have idx: "[k..<length row] = k # [Suc k..<length row]" by (rule upt_conv_Cons)
  let ?row' = "row[k := tick (row ! k)]"
  from Suc k have "tick_row_chk ?row' [Suc k..<length ?row'] =
      InBounds (take (Suc k) ?row' @ map tick (drop (Suc k) ?row'))"
    by (intro Suc.hyps) simp_all
  then have ih: "tick_row_chk ?row' [Suc k..<length row] =
      InBounds (take k row @ tick (row ! k) # map tick (drop (Suc k) row))"
    using k by (simp add: take_Suc_conv_app_nth)
  from k have dr: "drop k row = row ! k # drop (Suc k) row" by (rule Cons_nth_drop_Suc [symmetric])
  show ?case
  proof (cases "positive (row ! k)")
    case True
    with ih show ?thesis by (simp add: idx chk_get_inside [OF k] chk_set_inside [OF k] dr)
  next
    case False
    then have "tick (row ! k) = row ! k" by (cases "row ! k") simp_all
    then have "?row' = row" by simp
    with ih False show ?thesis by (simp add: idx chk_get_inside [OF k] dr)
  qed
qed

lemma tick_board_chk_eq:
  "k \<le> length b \<Longrightarrow>
   tick_board_chk b [k..<length b] = InBounds (take k b @ map (map tick) (drop k b))"
proof (induction "length b - k" arbitrary: k b)
  case 0
  then show ?case by simp
next
  case (Suc n)
  then have k: "k < length b" by simp
  then have idx: "[k..<length b] = k # [Suc k..<length b]" by (rule upt_conv_Cons)
  let ?b' = "b[k := map tick (b ! k)]"
  from Suc k have "tick_board_chk ?b' [Suc k..<length ?b'] =
      InBounds (take (Suc k) ?b' @ map (map tick) (drop (Suc k) ?b'))"
    by (intro Suc.hyps) simp_all
  then have ih: "tick_board_chk ?b' [Suc k..<length b] =
      InBounds (take k b @ map tick (b ! k) # map (map tick) (drop (Suc k) b))"
    using k by (simp add: take_Suc_conv_app_nth)
  from k have dr: "drop k b = b ! k # drop (Suc k) b" by (rule Cons_nth_drop_Suc [symmetric])
  from tick_row_chk_eq [of 0 "b ! k"]
  have row: "tick_row_chk (b ! k) [0..<length (b ! k)] = InBounds (map tick (b ! k))" by simp
  from ih show ?case by (simp add: idx chk_get_inside [OF k] row dr)
qed

lemma tick_board_chk_all: "tick_board_chk b [0..<length b] = InBounds (map (map tick) b)"
  using tick_board_chk_eq [of 0 b] by simp

lemma placeRandomly_chk_eq:
  "list_all unit_draw ds \<Longrightarrow> board g \<noteq> [] \<Longrightarrow> \<forall>row\<in>set (board g). row \<noteq> [] \<Longrightarrow>
   placeRandomly_chk limit ds g v = map_option InBounds (placeRandomly limit ds g v)"
proof (induction limit ds g v rule: placeRandomly.induct)
  case (1 limit game v)
  then show ?case by simp
next
  case (2 limit r1 ds game v)
  let ?ri = "randomIndex r1 (int (length (board game)))"
  let ?row = "board game ! nat ?ri"
  from "2.prems" have ri: "0 \<le> ?ri \<and> ?ri < int (length (board game))"
    by (intro randomIndex_range) simp_all
  then have row: "js_row (board game) ?ri = Some ?row"
    and crow: "chk_get (board game) ?ri = InBounds ?row"
    by (simp_all add: js_row_def chk_get_def)
  show ?case
  proof (cases ds)
    case Nil
    with row crow show ?thesis by (simp add: Let_def)
  next
    case (Cons r2 ds')
    let ?ci = "randomIndex r2 (int (length ?row))"
    from ri "2.prems"(3) have "?row \<noteq> []" by (simp add: nat_less_iff)
    with "2.prems"(1) Cons have ci: "0 \<le> ?ci \<and> ?ci < int (length ?row)"
      by (intro randomIndex_range) simp_all
    then have cell: "chk_get ?row ?ci = InBounds (js_get ?row ?ci)"
      and wr: "chk_set ?row ?ci (Num v) = InBounds (js_set ?row ?ci (Num v))"
      by (simp_all add: chk_get_def js_get_def chk_set_def js_set_def)
    show ?thesis
    proof (cases "js_get ?row ?ci = Num 0 \<or> limit = 0")
      case True
      with row crow cell wr Cons show ?thesis by (auto simp: Let_def)
    next
      case False
      from "2.prems" Cons have "list_all unit_draw ds'" by simp
      from "2.IH" [OF refl row Cons refl _ _ this "2.prems"(2,3)] False
      have "placeRandomly_chk (limit - 1) ds' game v
          = map_option InBounds (placeRandomly (limit - 1) ds' game v)" by simp
      with row crow cell Cons False show ?thesis by (simp add: Let_def)
    qed
  qed
qed

lemma grid_rows_nonempty: "grid b \<Longrightarrow> \<forall>row\<in>set b. row \<noteq> []"
  by (auto simp: grid_def list_all_iff)

lemma grid_shape: "grid b \<Longrightarrow> map length b' = map length b \<Longrightarrow> grid b'"
proof -
  assume g: "grid b" and sh: "map length b' = map length b"
  from g have "b \<noteq> []" by (rule grid_nonempty)
  with sh have "b' \<noteq> []" by auto
  with \<open>b \<noteq> []\<close> sh have "columns b' = columns b"
    by (cases b; cases b') (simp_all add: columns_def)
  moreover from sh have len: "length b' = length b" by (rule map_eq_imp_length_eq)
  moreover have "length (b' ! n) = length (b ! n)" if "n < length b" for n
    using arg_cong [OF sh, of "\<lambda>xs. xs ! n"] that len by simp
  ultimately show ?thesis using g by (simp add: grid_def list_all_length)
qed

lemma advance_chk_eq:
  assumes g: "grid (board g)" and ud: "list_all unit_draw ds"
  shows "advance_chk limit ds g d = map_option InBounds (advance limit ds g d)"
proof -
  from grid_nonempty [OF g] obtain row0 rest where b: "board g = row0 # rest"
    by (cases "board g") auto
  then have r0: "chk_get (board g) 0 = InBounds row0" and cols: "columns (board g) = int (length row0)"
    by (simp_all add: chk_get_def columns_def)
  from newHead_column [OF grid_nonempty [OF g], of d] obtain r c where
    nh: "newHead d (findHead g) = (r, Some c)" by blast
  note ac = advance_cases [OF nh, of limit ds]
  show ?thesis
  proof (cases "in_bounds (board g) (r, c)")
    case False
    with ac nh r0 cols show ?thesis
      by (auto simp: advance_chk_def findHead_chk_eq in_bounds_def col_lt_def col_ge_def)
  next
    case ib: True
    then have rng: "0 \<le> r" "r < int (length (board g))" "0 \<le> c" "c < columns (board g)"
      by (simp_all add: in_bounds_def)
    from grid_row_length [OF g rng(1,2)] rng have rng': "c < int (length (board g ! nat r))" by simp
    from rng rng' have rd: "read_cell_chk (board g) r (Some c) = InBounds (cell_at (board g) r c)"
      by (simp add: read_cell_chk_def chk_col_get_def chk_get_def cell_at_def js_row_def js_get_def)
    from rng cols have pre: "\<not> (r < 0 \<or> col_lt (Some c) 0 \<or> int (length (board g)) \<le> r)"
      "\<not> col_ge (Some c) (int (length row0))"
      by (simp_all add: col_lt_def col_ge_def)
    show ?thesis
    proof (cases "positive (cell_at (board g) r c)")
      case True
      with ac ib nh r0 pre rd show ?thesis
        by (simp add: advance_chk_def findHead_chk_eq)
    next
      case np: False
      show ?thesis
      proof (cases "cell_at (board g) r c = Num (- 1)")
        case tg: True
        from rng rng' have wr: "write_cell_chk (board g) r (Some c) (Num (glength g + 1))
            = InBounds (board (grown g r c))"
          by (simp add: write_cell_chk_def chk_col_set_def chk_get_def chk_set_def grown_def js_set_def)
        have gr: "g\<lparr>glength := glength g + 1, board := board (grown g r c)\<rparr> = grown g r c"
          by (simp add: grown_def)
        from grid_shape [OF g grown_shape [OF rng(1,2,3) rng']] have gg: "grid (board (grown g r c))" .
        from placeRandomly_chk_eq [OF ud grid_nonempty [OF gg] grid_rows_nonempty [OF gg], of limit "- 1"]
        have pl: "placeRandomly_chk limit ds (grown g r c) (- 1)
            = map_option InBounds (placeRandomly limit ds (grown g r c) (- 1))" .
        from ac ib np tg have a: "advance limit ds g d
            = map_option (\<lambda>(out, g', rest). (out, g')) (placeRandomly limit ds (grown g r c) (- 1))"
          by simp
        from nh r0 pre rd np tg wr gr pl have "advance_chk limit ds g d
            = (case map_option InBounds (placeRandomly limit ds (grown g r c) (- 1)) of
                 None \<Rightarrow> None
               | Some OutOfBounds \<Rightarrow> Some OutOfBounds
               | Some (InBounds (out, g', rest)) \<Rightarrow> Some (InBounds (out, g')))"
          by (simp add: advance_chk_def findHead_chk_eq Let_def)
        with a show ?thesis
          by (cases "placeRandomly limit ds (grown g r c) (- 1)") auto
      next
        case nt: False
        from rng rng' have wr: "write_cell_chk (map (map tick) (board g)) r (Some c) (Num (glength g))
            = InBounds (board (moved g r c))"
          by (simp add: write_cell_chk_def chk_col_set_def chk_get_def chk_set_def moved_def js_set_def)
        have mv: "g\<lparr>board := board (moved g r c)\<rparr> = moved g r c"
          by (simp add: moved_def)
        from ac ib np nt have a: "advance limit ds g d = Some (Returned, moved g r c)" by simp
        from nh r0 pre rd np nt wr mv have "advance_chk limit ds g d
            = Some (InBounds (Returned, moved g r c))"
          by (simp add: advance_chk_def findHead_chk_eq tick_board_chk_all)
        with a show ?thesis by simp
      qed
    qed
  qed
qed

text \<open>Whatever the board, a run that stays in bounds is the run of the functions above.\<close>

lemma chk_get_InBounds:
  "chk_get xs i = InBounds x \<Longrightarrow> 0 \<le> i \<and> i < int (length xs) \<and> x = xs ! nat i"
  by (auto simp: chk_get_def split: if_splits)

lemma chk_set_InBounds:
  "chk_set xs i v = InBounds ys \<Longrightarrow> 0 \<le> i \<and> i < int (length xs) \<and> ys = xs[nat i := v]"
  by (auto simp: chk_set_def split: if_splits)

lemma placeRandomly_chk_sound:
  "placeRandomly_chk limit ds g v = Some (InBounds x) \<Longrightarrow> placeRandomly limit ds g v = Some x"
proof (induction limit ds g v rule: placeRandomly.induct)
  case (1 limit game v)
  then show ?case by simp
next
  case (2 limit r1 ds game v)
  let ?ri = "randomIndex r1 (int (length (board game)))"
  from "2.prems" obtain row where crow: "chk_get (board game) ?ri = InBounds row"
    by (auto simp: Let_def split: access.splits)
  from chk_get_InBounds [OF crow] have row: "js_row (board game) ?ri = Some row"
    by (simp add: js_row_def)
  from "2.prems" crow obtain r2 ds' where ds: "ds = r2 # ds'"
    by (auto simp: Let_def split: list.splits)
  let ?ci = "randomIndex r2 (int (length row))"
  from "2.prems" crow ds obtain cell where ccell: "chk_get row ?ci = InBounds cell"
    by (auto simp: Let_def split: access.splits)
  from chk_get_InBounds [OF ccell] have cell: "js_get row ?ci = cell"
    and wr: "chk_set row ?ci (Num v) = InBounds (js_set row ?ci (Num v))"
    by (simp_all add: js_get_def chk_set_def js_set_def)
  note step = placeRandomly_attempt [OF row, of limit r2 ds' v]
  show ?case
  proof (cases "cell = Num 0 \<or> limit = 0")
    case True
    with "2.prems" crow ccell cell wr ds step show ?thesis by (auto simp: Let_def)
  next
    case False
    with "2.prems" crow ccell ds have "placeRandomly_chk (limit - 1) ds' game v = Some (InBounds x)"
      by (simp add: Let_def)
    from "2.IH" [OF refl row ds refl _ _ this] False cell step ds show ?thesis by simp
  qed
qed

lemma read_cell_chk_InBounds:
  "read_cell_chk b r c = InBounds cell \<Longrightarrow>
   \<exists>row. js_row b r = Some row \<and> chk_get b r = InBounds row \<and> col_get row c = cell"
  by (auto simp: read_cell_chk_def chk_col_get_def col_get_def js_row_def js_get_def chk_get_def
      split: access.splits option.splits if_splits)

lemma write_cell_chk_InBounds:
  "write_cell_chk b r c v = InBounds b' \<Longrightarrow>
   0 \<le> r \<and> r < int (length b) \<and> b' = b[nat r := col_set (b ! nat r) c v]"
  by (auto simp: write_cell_chk_def chk_col_set_def col_set_def chk_get_def chk_set_def js_set_def
      split: access.splits option.splits if_splits)

lemma advance_chk_sound:
  assumes "advance_chk limit ds g d = Some (InBounds x)"
  shows "advance limit ds g d = Some x"
proof -
  obtain r c where nh: "newHead d (findHead g) = (r, c)" by (cases "newHead d (findHead g)")
  show ?thesis
  proof (cases "r < 0 \<or> col_lt c 0 \<or> int (length (board g)) \<le> r")
    case True
    with assms nh show ?thesis by (simp add: advance_chk_def advance_def findHead_chk_eq)
  next
    case w1: False
    with assms nh obtain row0 where c0: "chk_get (board g) 0 = InBounds row0"
      by (auto simp: advance_chk_def findHead_chk_eq split: access.splits)
    from chk_get_InBounds [OF c0] have r0: "js_row (board g) 0 = Some row0"
      by (simp add: js_row_def)
    show ?thesis
    proof (cases "col_ge c (int (length row0))")
      case True
      with assms nh w1 c0 r0 show ?thesis by (simp add: advance_chk_def advance_def findHead_chk_eq)
    next
      case w2: False
      with assms nh w1 c0 obtain cell where rd: "read_cell_chk (board g) r c = InBounds cell"
        by (auto simp: advance_chk_def findHead_chk_eq split: access.splits)
      from read_cell_chk_InBounds [OF rd] obtain row where row: "js_row (board g) r = Some row"
        and cell: "col_get row c = cell" by blast
      from js_row_Some [OF row] have rr: "board g ! nat r = row" by simp
      show ?thesis
      proof (cases "positive cell")
        case True
        with assms nh w1 w2 c0 r0 rd row cell show ?thesis
          by (simp add: advance_chk_def advance_def findHead_chk_eq)
      next
        case np: False
        show ?thesis
        proof (cases "cell = Num (- 1)")
          case True
          with assms nh w1 w2 c0 rd np obtain b' where
            wr: "write_cell_chk (board g) r c (Num (glength g + 1)) = InBounds b'"
            by (auto simp: advance_chk_def findHead_chk_eq Let_def split: access.splits)
          from write_cell_chk_InBounds [OF wr] rr
          have b': "b' = (board g)[nat r := col_set row c (Num (glength g + 1))]" by simp
          let ?g2 = "g\<lparr>glength := glength g + 1, board := b'\<rparr>"
          from assms nh w1 w2 c0 rd np True wr obtain rest where
            "placeRandomly_chk limit ds ?g2 (- 1) = Some (InBounds (fst x, snd x, rest))"
            by (auto simp: advance_chk_def findHead_chk_eq Let_def split: access.splits option.splits)
          from placeRandomly_chk_sound [OF this]
          have "placeRandomly limit ds ?g2 (- 1) = Some (fst x, snd x, rest)" .
          with nh w1 w2 r0 row cell np True b' show ?thesis
            by (simp add: advance_def Let_def)
        next
          case nt: False
          with assms nh w1 w2 c0 rd np obtain b' where
            wr: "write_cell_chk (map (map tick) (board g)) r c (Num (glength g)) = InBounds b'"
            and x: "x = (Returned, g\<lparr>board := b'\<rparr>)"
            by (auto simp: advance_chk_def findHead_chk_eq tick_board_chk_all split: access.splits)
          from write_cell_chk_InBounds [OF wr]
          have "b' = (map (map tick) (board g))[nat r := col_set (map (map tick) (board g) ! nat r) c (Num (glength g))]"
            by simp
          with nh w1 w2 r0 row cell np nt x show ?thesis
            by (simp add: advance_def Let_def)
        qed
      qed
    qed
  qed
qed

text \<open>A board with a short row: the move South reads beyond the end of the second row.\<close>

lemma advance_chk_short_row:
  "advance_chk 7800 [] \<lparr>board = [[Num 0, Num 0, Num 1], [Num 0]], glength = 1\<rparr> South
     = Some OutOfBounds"
  by code_simp

text \<open>
  Claim C9. On a board that is a non-empty rectangular grid and has a cell equal to
  \<open>game.length\<close>, for every direction and draws in \<open>[0, 1)\<close>: \<open>advance\<close> with every
  index checked never ends in \<open>OutOfBounds\<close>, and it gives what \<open>advance\<close> gives, so no read
  and no write of the call (those of \<open>placeRandomly\<close> on a growth step included) is
  outside its array. In particular the head search ends at a row and a column inside the
  grid, where the cell holds the length; when the wall check passes, the candidate row is
  a row of the board and the candidate column an index of that row; no array is extended
  by a write (the shape of the board is unchanged whatever the outcome); and no read of a
  missing row throws.
\<close>

theorem advance_indices_in_bounds:
  assumes "grid (board g)" and "0 < holding (glength g) (board g)" and "list_all unit_draw ds"
  shows "advance_chk limit ds g d \<noteq> Some OutOfBounds
       \<and> advance_chk limit ds g d = map_option InBounds (advance limit ds g d)
       \<and> findHead_chk g = InBounds (findHead g)
       \<and> (\<exists>hr hc. findHead g = (hr, Some hc)
            \<and> 0 \<le> hr \<and> hr < int (length (board g)) \<and> 0 \<le> hc \<and> hc < columns (board g)
            \<and> cell_at (board g) hr hc = Num (glength g))
       \<and> (\<exists>r c. newHead d (findHead g) = (r, Some c)
            \<and> ((\<forall>g'. advance limit ds g d \<noteq> Some (Thrown WouldHitWall, g')) \<longrightarrow>
                 0 \<le> r \<and> r < int (length (board g))
               \<and> 0 \<le> c \<and> c < int (length (board g ! nat r))))
       \<and> (\<forall>out g'. advance limit ds g d = Some (out, g') \<longrightarrow>
             map length (board g') = map length (board g))
       \<and> (\<forall>g'. advance limit ds g d \<noteq> Some (Thrown TypeError, g'))"
proof (intro conjI)
  note eq = advance_chk_eq [OF assms(1,3), of limit d]
  then show "advance_chk limit ds g d \<noteq> Some OutOfBounds"
    by (cases "advance limit ds g d") simp_all
  from eq show "advance_chk limit ds g d = map_option InBounds (advance limit ds g d)" .
  show "findHead_chk g = InBounds (findHead g)" by (rule findHead_chk_eq)
next
  from findHead_inside [OF assms(2)] obtain hr hc where
    h: "findHead g = (hr, Some hc)" "0 \<le> hr" "hr < int (length (board g))"
      "0 \<le> hc" "hc < int (length (board g ! nat hr))" "cell_at (board g) hr hc = Num (glength g)"
    by blast
  from grid_row_length [OF assms(1) h(2,3)] h(5) have "hc < columns (board g)" by simp
  with h show "\<exists>hr hc. findHead g = (hr, Some hc)
            \<and> 0 \<le> hr \<and> hr < int (length (board g)) \<and> 0 \<le> hc \<and> hc < columns (board g)
            \<and> cell_at (board g) hr hc = Num (glength g)" by blast
next
  from newHead_column [OF grid_nonempty [OF assms(1)], of d] obtain r c where
    nh: "newHead d (findHead g) = (r, Some c)" by blast
  have "0 \<le> r \<and> r < int (length (board g)) \<and> 0 \<le> c \<and> c < int (length (board g ! nat r))"
    if nw: "\<forall>g'. advance limit ds g d \<noteq> Some (Thrown WouldHitWall, g')"
  proof -
    from nw advance_cases [OF nh, of limit ds] have ib: "in_bounds (board g) (r, c)"
      by (auto split: if_splits)
    then have rng: "0 \<le> r" "r < int (length (board g))" "0 \<le> c" "c < columns (board g)"
      by (simp_all add: in_bounds_def)
    with grid_row_length [OF assms(1) rng(1,2)] show ?thesis by simp
  qed
  with nh show "\<exists>r c. newHead d (findHead g) = (r, Some c)
            \<and> ((\<forall>g'. advance limit ds g d \<noteq> Some (Thrown WouldHitWall, g')) \<longrightarrow>
                 0 \<le> r \<and> r < int (length (board g))
               \<and> 0 \<le> c \<and> c < int (length (board g ! nat r)))" by blast
next
  show "\<forall>out g'. advance limit ds g d = Some (out, g') \<longrightarrow>
             map length (board g') = map length (board g)"
    using advance_shape [OF assms(1)] by blast
next
  show "\<forall>g'. advance limit ds g d \<noteq> Some (Thrown TypeError, g')"
    using advance_no_TypeError [OF assms(1,3)] by blast
qed

theorem advance_indices_in_bounds_witness:
  "grid [[Num 0, Num (- 1)], [Num 0, Num 1]]
   \<and> 0 < holding 1 [[Num 0, Num (- 1)], [Num 0, Num 1]]
   \<and> list_all unit_draw [0, 0]
   \<and> findHead \<lparr>board = [[Num 0, Num (- 1)], [Num 0, Num 1]], glength = 1\<rparr> = (1, Some 1)
   \<and> newHead North (findHead \<lparr>board = [[Num 0, Num (- 1)], [Num 0, Num 1]], glength = 1\<rparr>)
       = (0, Some 1)
   \<and> advance 7800 [0, 0] \<lparr>board = [[Num 0, Num (- 1)], [Num 0, Num 1]], glength = 1\<rparr> North
       = Some (Returned, \<lparr>board = [[Num (- 1), Num 2], [Num 0, Num 1]], glength = 2\<rparr>)
   \<and> advance_chk 7800 [0, 0] \<lparr>board = [[Num 0, Num (- 1)], [Num 0, Num 1]], glength = 1\<rparr> North
       = Some (InBounds (Returned, \<lparr>board = [[Num (- 1), Num 2], [Num 0, Num 1]], glength = 2\<rparr>))
   \<and> map length [[Num (- 1), Num 2], [Num 0, Num 1]]
       = map length [[Num 0, Num (- 1)], [Num 0, Num 1 :: CellValue]]
   \<and> (0::int) < int (length ([[Num 0, Num (- 1)], [Num 0, Num 1 :: CellValue]] ! nat 0))"
proof -
  let ?g = "\<lparr>board = [[Num 0, Num (- 1)], [Num 0, Num 1]], glength = 1\<rparr>"
  have gr: "grid (board ?g)" by (simp add: grid_def columns_def)
  have hd: "0 < holding (glength ?g) (board ?g)" by (simp add: holding_def)
  have u: "list_all unit_draw [0, 0]" by (simp add: unit_draw_def)
  have fh: "findHead ?g = (1, Some 1)" by code_simp
  have nh: "newHead North (findHead ?g) = (0, Some 1)" by code_simp
  have a: "advance 7800 [0, 0] ?g North
       = Some (Returned, \<lparr>board = [[Num (- 1), Num 2], [Num 0, Num 1]], glength = 2\<rparr>)"
    by code_simp
  from advance_indices_in_bounds [OF gr hd u, of 7800 North] gr hd u fh nh a
  show ?thesis by simp
qed

end
